theory Spec2Isabelle
  imports Complex_Main
begin

section \<open>The Modbus transport of pylxpweb (transports/_modbus_base.py)\<close>

text \<open>
  The transport talks to a pymodbus client. The client is the environment of the code:
  it is modelled as an oracle that answers the request issued as the \<open>n\<close>-th exchange of
  the session. Every await of the source that reaches the outside world (a frame
  exchange, a sleep, a reconnect) is recorded in a trace kept in the transport state, so
  that "which frames are issued" is a statement about that trace. The asyncio lock of the
  source serialises the exchanges of one transport; the model is sequential.
\<close>

subsection \<open>Requests, replies, exceptions\<close>

datatype request =
    ReadInput int int            \<comment> \<open>FC4: \<open>read_input_registers(address, count)\<close>\<close>
  | ReadHolding int int          \<comment> \<open>FC3: \<open>read_holding_registers(address, count)\<close>\<close>
  | WriteRegister int int        \<comment> \<open>FC6: \<open>write_register(address, value)\<close>\<close>
  | WriteRegisters int "int list" \<comment> \<open>FC16: \<open>write_registers(address, values)\<close>\<close>
  | ConnectReq

text \<open>What a call of the client raises.\<close>

datatype raised =
    ModbusIO string     \<comment> \<open>\<open>ModbusIOException\<close>, with \<open>str(err)\<close>\<close>
  | BuiltinTimeout      \<comment> \<open>\<open>TimeoutError\<close>\<close>
  | OSErr string        \<comment> \<open>any other \<open>OSError\<close>\<close>
  | Unexpected string   \<comment> \<open>an exception no \<open>except\<close> clause of the caller names\<close>

text \<open>
  What a call of the client gives: a response object (for a read, with its registers, or
  without any), a response whose \<open>isError()\<close> holds (a Modbus exception response), or
  an exception.
\<close>

datatype reply =
    Response "int list option"
  | ErrorResponse
  | Raises raised

type_synonym device = "nat \<Rightarrow> request \<Rightarrow> reply"

datatype exc_class =
    TransportConnectionError | TransportReadError | TransportTimeoutError
  | TransportWriteError | ModbusIOException | TimeoutError | OSError | TypeError
  | OtherException

datatype exn = Exn (cls: exc_class) (msg: string) (cause: "exn option")

fun exn_of_raised :: "raised \<Rightarrow> exn" where
  "exn_of_raised (ModbusIO m) = Exn ModbusIOException m None"
| "exn_of_raised BuiltinTimeout = Exn TimeoutError [] None"
| "exn_of_raised (OSErr m) = Exn OSError m None"
| "exn_of_raised (Unexpected m) = Exn OtherException m None"

datatype event =
    Request request
  | SleepRetry real     \<comment> \<open>\<open>asyncio.sleep(delay)\<close> of the retry loop\<close>
  | SleepGroup real     \<comment> \<open>\<open>asyncio.sleep(current_delay)\<close> between register groups\<close>
  | Disconnected

datatype log_level = Debug | Warning | Error

subsection \<open>Transport state\<close>

record transport =
  connected :: bool              \<comment> \<open>what \<open>_ensure_connected\<close> tests\<close>
  client_present :: bool         \<comment> \<open>\<open>self._client is not None\<close>\<close>
  retries :: int
  retry_delay :: real
  inter_register_delay :: real
  consecutive_errors :: nat
  last_read_retried :: bool
  exchanges :: nat               \<comment> \<open>number of client calls made so far\<close>
  trace :: "event list"
  logged :: "(log_level \<times> string) list"

definition max_consecutive_errors :: nat where
  "max_consecutive_errors = 3"

definition emit :: "event \<Rightarrow> transport \<Rightarrow> transport" where
  "emit e s = s\<lparr>trace := trace s @ [e]\<rparr>"

definition log_msg :: "log_level \<Rightarrow> string \<Rightarrow> transport \<Rightarrow> transport" where
  "log_msg l m s = s\<lparr>logged := logged s @ [(l, m)]\<rparr>"

text \<open>One call of the client: the oracle answers, the exchange is counted and traced.\<close>

definition exchange :: "device \<Rightarrow> request \<Rightarrow> transport \<Rightarrow> reply \<times> transport" where
  "exchange dev req s =
     (dev (exchanges s) req, emit (Request req) (s\<lparr>exchanges := Suc (exchanges s)\<rparr>))"

text \<open>The events added to the trace between two states.\<close>

definition issued :: "transport \<Rightarrow> transport \<Rightarrow> event list" where
  "issued s s' = drop (length (trace s)) (trace s')"

subsection \<open>String tests used by the exception handlers\<close>

text \<open>
  \<open>str.lower()\<close> on the ASCII letters: an upper-case letter (codes 65 to 90) gets
  bit 5 set, which adds 32 to its code.
\<close>

fun lower_char :: "char \<Rightarrow> char" where
  "lower_char (Char b0 b1 b2 b3 b4 b5 b6 b7) =
     (let n = (of_char (Char b0 b1 b2 b3 b4 b5 b6 b7) :: nat)
      in if 65 \<le> n \<and> n \<le> 90 then Char b0 b1 b2 b3 b4 True b6 b7
         else Char b0 b1 b2 b3 b4 b5 b6 b7)"

definition lower :: "string \<Rightarrow> string" where
  "lower s = map lower_char s"

fun starts_with :: "string \<Rightarrow> string \<Rightarrow> bool" where
  "starts_with [] s = True"
| "starts_with (p # ps) [] = False"
| "starts_with (p # ps) (c # cs) = (p = c \<and> starts_with ps cs)"

fun contains :: "string \<Rightarrow> string \<Rightarrow> bool" where
  "contains sub [] = (sub = [])"
| "contains sub (c # cs) = (starts_with sub (c # cs) \<or> contains sub cs)"

subsection \<open>\<open>_read_registers\<close>\<close>

text \<open>The exception stored in \<open>last_err\<close> by the handlers of the retry loop.\<close>

fun read_failure :: "reply \<Rightarrow> exn" where
  "read_failure ErrorResponse = Exn TransportReadError ''Modbus read error'' None"
| "read_failure (Response r) = Exn TransportReadError ''Invalid Modbus response'' None"
| "read_failure (Raises (ModbusIO m)) =
     (if contains ''timeout'' (lower m)
      then Exn TransportTimeoutError ''Timeout reading registers'' (Some (exn_of_raised (ModbusIO m)))
      else Exn TransportReadError ''Failed to read registers'' (Some (exn_of_raised (ModbusIO m))))"
| "read_failure (Raises BuiltinTimeout) =
     Exn TransportTimeoutError ''Timeout reading registers'' (Some (exn_of_raised BuiltinTimeout))"
| "read_failure (Raises (OSErr m)) =
     Exn TransportReadError ''Failed to read registers'' (Some (exn_of_raised (OSErr m)))"
| "read_failure (Raises (Unexpected m)) = exn_of_raised (Unexpected m)"

text \<open>
  A reply after which the loop goes on: every reply but registers (the function returns)
  and an exception that no handler names (it propagates).
\<close>

fun retriable :: "reply \<Rightarrow> bool" where
  "retriable (Response (Some regs)) = False"
| "retriable (Raises (Unexpected m)) = False"
| "retriable r = True"

definition read_request :: "bool \<Rightarrow> int \<Rightarrow> int \<Rightarrow> request" where
  "read_request input_registers address count =
     (if input_registers then ReadInput address (min count 40)
      else ReadHolding address (min count 40))"

text \<open>
  The body of \<open>for attempt in range(self._retries + 1)\<close>, as a recursion over the
  list of attempt numbers; the empty list is the code after the loop.
\<close>

fun attempt_loop ::
  "device \<Rightarrow> int \<Rightarrow> int \<Rightarrow> bool \<Rightarrow> nat list \<Rightarrow> exn option \<Rightarrow> transport
   \<Rightarrow> (exn + int list) \<times> transport" where
  "attempt_loop dev address count input_registers [] last_err s =
     (case last_err of
        None \<Rightarrow> (Inl (Exn TypeError ''exceptions must derive from BaseException'' None),
                 log_msg Error ''Failed to read registers'' s)
      | Some e \<Rightarrow> (Inl e, log_msg Error ''Failed to read registers'' s))"
| "attempt_loop dev address count input_registers (attempt # rest) last_err s =
     (case exchange dev (read_request input_registers address count) s of (r, s1) \<Rightarrow>
        (case r of
           Response (Some regs) \<Rightarrow> (Inr regs, s1\<lparr>consecutive_errors := 0\<rparr>)
         | Raises (Unexpected m) \<Rightarrow> (Inl (exn_of_raised (Unexpected m)), s1)
         | _ \<Rightarrow>
            (let s2 = s1\<lparr>consecutive_errors := Suc (consecutive_errors s1)\<rparr>;
                 s3 = (if int attempt < retries s2
                       then emit (SleepRetry (retry_delay s2 * 2 ^ attempt))
                              (log_msg Debug ''Retry reading registers''
                                 (s2\<lparr>last_read_retried := True\<rparr>))
                       else s2)
             in attempt_loop dev address count input_registers rest (Some (read_failure r)) s3)))"

text \<open>
  Modelled from the spec: \<open>_ensure_connected\<close> is a method of \<open>BaseTransport\<close>
  (transports/protocol.py), which is not among the sources. On a transport that is not
  connected it raises \<open>TransportConnectionError("Transport not connected")\<close>, as
  tests/unit/transports/test_modbus.py expects; it is the first test of
  \<open>_read_registers\<close> and of \<open>_write_holding_registers\<close> below.
\<close>

definition read_registers ::
  "device \<Rightarrow> transport \<Rightarrow> int \<Rightarrow> int \<Rightarrow> bool \<Rightarrow> (exn + int list) \<times> transport" where
  "read_registers dev s address count input_registers =
     (if \<not> connected s then (Inl (Exn TransportConnectionError ''Transport not connected'' None), s)
      else if \<not> client_present s
      then (Inl (Exn TransportConnectionError ''Modbus client not initialized'' None), s)
      else attempt_loop dev address count input_registers [0..<nat (retries s + 1)] None
             (s\<lparr>last_read_retried := False\<rparr>))"

definition read_input_registers ::
  "device \<Rightarrow> transport \<Rightarrow> int \<Rightarrow> int \<Rightarrow> (exn + int list) \<times> transport" where
  "read_input_registers dev s address count = read_registers dev s address count True"

definition read_holding_registers ::
  "device \<Rightarrow> transport \<Rightarrow> int \<Rightarrow> int \<Rightarrow> (exn + int list) \<times> transport" where
  "read_holding_registers dev s address count = read_registers dev s address count False"

subsection \<open>\<open>_write_holding_registers\<close> and \<open>write_parameters\<close>\<close>

text \<open>
  \<open>values[0]\<close> of the single-register branch is guarded by \<open>len(values) == 1\<close>,
  so the pattern \<open>[v]\<close> is exactly that branch.
\<close>

fun write_request :: "int \<Rightarrow> int list \<Rightarrow> request" where
  "write_request address [v] = WriteRegister address v"
| "write_request address vs = WriteRegisters address vs"

fun write_failure :: "raised \<Rightarrow> exn" where
  "write_failure (ModbusIO m) =
     (if contains ''timeout'' (lower m)
      then Exn TransportTimeoutError ''Timeout writing registers'' (Some (exn_of_raised (ModbusIO m)))
      else Exn TransportWriteError ''Failed to write registers'' (Some (exn_of_raised (ModbusIO m))))"
| "write_failure BuiltinTimeout =
     Exn TransportTimeoutError ''Timeout writing registers'' (Some (exn_of_raised BuiltinTimeout))"
| "write_failure (OSErr m) =
     Exn TransportWriteError ''Failed to write registers'' (Some (exn_of_raised (OSErr m)))"
| "write_failure (Unexpected m) = exn_of_raised (Unexpected m)"

definition write_holding_registers ::
  "device \<Rightarrow> transport \<Rightarrow> int \<Rightarrow> int list \<Rightarrow> (exn + bool) \<times> transport" where
  "write_holding_registers dev s address vs =
     (if \<not> connected s then (Inl (Exn TransportConnectionError ''Transport not connected'' None), s)
      else if \<not> client_present s
      then (Inl (Exn TransportConnectionError ''Modbus client not initialized'' None), s)
      else (case exchange dev (write_request address vs) s of (r, s1) \<Rightarrow>
        (case r of
           Response x \<Rightarrow> (Inr True, s1)
         | ErrorResponse \<Rightarrow>
             (Inl (Exn TransportWriteError ''Modbus write error'' None),
              log_msg Error ''Modbus error writing registers'' s1)
         | Raises (Unexpected m) \<Rightarrow> (Inl (exn_of_raised (Unexpected m)), s1)
         | Raises x \<Rightarrow> (Inl (write_failure x), log_msg Error ''Failed to write registers'' s1))))"

text \<open>
  A \<open>dict[int, int]\<close> is given by its items, a list of pairs with distinct keys.
  \<open>sorted(parameters.items())\<close> orders the pairs by address: the keys of a dict
  never tie, so the values are never compared.
\<close>

type_synonym params = "(int \<times> int) list"

definition sorted_items :: "params \<Rightarrow> params" where
  "sorted_items parameters = sort_key fst parameters"

text \<open>
  The grouping loop, with its three variables \<open>groups\<close>, \<open>current_start\<close> and
  \<open>current_values\<close>.
\<close>

fun group_loop ::
  "params \<Rightarrow> (int \<times> int list) list \<Rightarrow> int option \<Rightarrow> int list
   \<Rightarrow> (int \<times> int list) list \<times> int option \<times> int list" where
  "group_loop [] groups current_start current_values = (groups, current_start, current_values)"
| "group_loop ((address, v) # rest) groups current_start current_values =
     (case current_start of
        None \<Rightarrow> group_loop rest groups (Some address) [v]
      | Some start \<Rightarrow>
          if address = start + int (length current_values)
          then group_loop rest groups (Some start) (current_values @ [v])
          else group_loop rest (groups @ [(start, current_values)]) (Some address) [v])"

definition group_consecutive :: "params \<Rightarrow> (int \<times> int list) list" where
  "group_consecutive sorted_params =
     (case group_loop sorted_params [] None [] of
        (groups, Some start, current_values) \<Rightarrow>
          if current_values \<noteq> [] then groups @ [(start, current_values)] else groups
      | (groups, None, current_values) \<Rightarrow> groups)"

fun write_groups ::
  "device \<Rightarrow> transport \<Rightarrow> (int \<times> int list) list \<Rightarrow> (exn + unit) \<times> transport" where
  "write_groups dev s [] = (Inr (), s)"
| "write_groups dev s ((start_address, vs) # rest) =
     (case write_holding_registers dev s start_address vs of
        (Inl e, s1) \<Rightarrow> (Inl e, s1)
      | (Inr ok, s1) \<Rightarrow> write_groups dev s1 rest)"

definition write_parameters ::
  "device \<Rightarrow> transport \<Rightarrow> params \<Rightarrow> (exn + bool) \<times> transport" where
  "write_parameters dev s parameters =
     (case write_groups dev s (group_consecutive (sorted_items parameters)) of
        (Inl e, s1) \<Rightarrow> (Inl e, s1)
      | (Inr u, s1) \<Rightarrow> (Inr True, s1))"

subsection \<open>Register maps read from the device\<close>

type_synonym registers = "int \<rightharpoonup> int"

text \<open>
  \<open>{start + offset: value for offset, value in enumerate(values)}\<close>; the loop
  \<open>registers[start + offset] = value\<close> of \<open>_read_register_groups\<close> stores the same
  entries.
\<close>

definition registers_from_values :: "int \<Rightarrow> int list \<Rightarrow> registers" where
  "registers_from_values start vs =
     map_of (zip (map (\<lambda>offset. start + int offset) [0..<length vs]) vs)"

subsection \<open>Chunked reads: \<open>read_parameters\<close>\<close>

text \<open>
  The loop \<open>while remaining > 0\<close> of \<open>read_parameters\<close>. The loop that
  \<open>read_battery\<close> runs over the individual-battery range has the same body, on the
  input registers; the flag \<open>input_registers\<close> selects which of the two readers is
  called.
\<close>

function read_chunks ::
  "device \<Rightarrow> bool \<Rightarrow> transport \<Rightarrow> registers \<Rightarrow> int \<Rightarrow> int \<Rightarrow> (exn + registers) \<times> transport" where
  "read_chunks dev input_registers s result current_address remaining =
     (if remaining > 0
      then (case read_registers dev s current_address (min remaining 40) input_registers of
              (Inl e, s1) \<Rightarrow> (Inl e, s1)
            | (Inr vs, s1) \<Rightarrow>
                read_chunks dev input_registers s1
                  (result ++ registers_from_values current_address vs)
                  (current_address + min remaining 40) (remaining - min remaining 40))
      else (Inr result, s))"
  by pat_completeness auto
termination
  by (relation "measure (\<lambda>(dev, inp, s, result, current_address, remaining). nat remaining)") auto

declare read_chunks.simps [simp del]

definition read_parameters ::
  "device \<Rightarrow> transport \<Rightarrow> int \<Rightarrow> int \<Rightarrow> (exn + registers) \<times> transport" where
  "read_parameters dev s start_address count = read_chunks dev False s Map.empty start_address count"

subsection \<open>Reconnecting after consecutive errors\<close>

text \<open>
  Modelled from the spec: \<open>connect\<close> and \<open>disconnect\<close> are methods of the subclasses
  (transports/modbus.py), which are not among the sources. Disconnecting releases the
  socket; connecting asks the client to connect and fails with a
  \<open>TransportConnectionError\<close> when it does not (tests/unit/transports/test_modbus.py,
  \<open>test_connect_failure\<close>).
\<close>

definition disconnect :: "transport \<Rightarrow> transport" where
  "disconnect s = emit Disconnected (s\<lparr>connected := False\<rparr>)"

definition connect :: "device \<Rightarrow> transport \<Rightarrow> (exn + unit) \<times> transport" where
  "connect dev s =
     (case exchange dev ConnectReq s of
        (Response x, s1) \<Rightarrow> (Inr (), s1\<lparr>connected := True, client_present := True\<rparr>)
      | (r, s1) \<Rightarrow> (Inl (Exn TransportConnectionError ''Failed to connect'' None),
                    s1\<lparr>connected := False\<rparr>))"

text \<open>\<open>_reconnect\<close>, with its second test of the error count under the lock.\<close>

definition reconnect :: "device \<Rightarrow> transport \<Rightarrow> (exn + unit) \<times> transport" where
  "reconnect dev s =
     (if consecutive_errors s < max_consecutive_errors then (Inr (), s)
      else (case connect dev (disconnect (log_msg Warning ''Reconnecting Modbus client'' s)) of
              (Inl e, s1) \<Rightarrow> (Inl e, s1)
            | (Inr u, s1) \<Rightarrow> (Inr (), s1\<lparr>consecutive_errors := 0\<rparr>)))"

text \<open>
  \<open>if self._consecutive_errors >= self._max_consecutive_errors: await self._reconnect()\<close>,
  the first statement of \<open>_read_register_groups\<close> and of \<open>read_battery\<close>.
\<close>

definition reconnect_if_needed :: "device \<Rightarrow> transport \<Rightarrow> (exn + unit) \<times> transport" where
  "reconnect_if_needed dev s =
     (if consecutive_errors s \<ge> max_consecutive_errors then reconnect dev s else (Inr (), s))"

subsection \<open>\<open>_read_register_groups\<close>\<close>

definition INPUT_REGISTER_GROUPS :: "(string \<times> int \<times> int) list" where
  "INPUT_REGISTER_GROUPS =
     [(''power_energy'', 0, 32), (''status_energy'', 32, 32), (''temperatures'', 64, 16),
      (''bms_data'', 80, 33), (''extended_data'', 113, 18), (''output_power'', 170, 2)]"

definition select_groups :: "string list option \<Rightarrow> (string \<times> int \<times> int) list" where
  "select_groups group_names =
     (case group_names of
        None \<Rightarrow> INPUT_REGISTER_GROUPS
      | Some names \<Rightarrow>
          concat (map (\<lambda>name. case map_of INPUT_REGISTER_GROUPS name of
                                 None \<Rightarrow> [] | Some g \<Rightarrow> [(name, g)]) names))"

text \<open>
  The loop \<open>for i, (group_name, (start, count)) in enumerate(groups)\<close>; \<open>n\<close> is
  \<open>len(groups)\<close>, \<open>current_delay\<close> the loop's variable of that name.
\<close>

fun groups_loop ::
  "device \<Rightarrow> nat \<Rightarrow> (nat \<times> string \<times> int \<times> int) list \<Rightarrow> registers \<Rightarrow> real \<Rightarrow> transport
   \<Rightarrow> (exn + registers) \<times> transport" where
  "groups_loop dev n [] regs current_delay s = (Inr regs, s)"
| "groups_loop dev n ((i, group_name, start, count) # rest) regs current_delay s =
     (case read_input_registers dev s start count of
        (Inl e, s1) \<Rightarrow>
          (Inl (Exn TransportReadError ''Failed to read register group'' (Some e)),
           log_msg Error ''Failed to read register group'' s1)
      | (Inr vs, s1) \<Rightarrow>
          (let d = (if last_read_retried s1 then min (current_delay * 2) 1 else current_delay);
               s2 = (if last_read_retried s1
                     then log_msg Debug ''Increasing inter-group delay'' s1 else s1);
               s3 = (if int i < int n - 1 then emit (SleepGroup d) s2 else s2)
           in groups_loop dev n rest (regs ++ registers_from_values start vs) d s3))"

definition read_register_groups ::
  "device \<Rightarrow> transport \<Rightarrow> string list option \<Rightarrow> (exn + registers) \<times> transport" where
  "read_register_groups dev s group_names =
     (let groups = select_groups group_names in
      case reconnect_if_needed dev s of
        (Inl e, s1) \<Rightarrow> (Inl e, s1)
      | (Inr u, s1) \<Rightarrow>
          groups_loop dev (length groups) (enumerate 0 groups) Map.empty
            (inter_register_delay s1) s1)"

subsection \<open>\<open>read_runtime\<close> and \<open>read_energy\<close>\<close>

text \<open>
  The decoders \<open>InverterRuntimeData.from_modbus_registers\<close> and
  \<open>InverterEnergyData.from_modbus_registers\<close> (transports/data.py) are not among the
  sources; the decoder, applied to the register map of the family, is a parameter.
\<close>

definition read_runtime ::
  "(registers \<Rightarrow> 'r) \<Rightarrow> device \<Rightarrow> transport \<Rightarrow> (exn + 'r) \<times> transport" where
  "read_runtime decode dev s =
     (case read_register_groups dev s None of
        (Inl e, s1) \<Rightarrow> (Inl e, s1)
      | (Inr input_registers, s1) \<Rightarrow> (Inr (decode input_registers), s1))"


subsection \<open>\<open>read_battery\<close>\<close>

text \<open>
  Modelled from the spec: the constants and the map of transports/register_maps, which
  is not among the sources. "Individual battery-module data lives at base address 5000,
  30 words per module, up to about 10 modules"; the base address is also the one the
  comments of \<open>read_battery\<close> name. The number of modules read at most, the words per
  module, the address of the bank-voltage register and the raw "no battery" threshold are
  fields of the map, so that nothing proved depends on their values.
\<close>

definition INDIVIDUAL_BATTERY_BASE_ADDRESS :: int where
  "INDIVIDUAL_BATTERY_BASE_ADDRESS = 5000"

record register_map =
  INDIVIDUAL_BATTERY_MAX_COUNT :: int
  INDIVIDUAL_BATTERY_REGISTER_COUNT :: int
  battery_voltage_register :: int
  no_battery_threshold :: int

definition pv_series_map :: register_map where
  "pv_series_map = \<lparr>INDIVIDUAL_BATTERY_MAX_COUNT = 10, INDIVIDUAL_BATTERY_REGISTER_COUNT = 30,
     battery_voltage_register = 4, no_battery_threshold = 50\<rparr>"

record battery_bank =
  bank_registers :: registers
  module_registers :: "registers option"

text \<open>
  Modelled from the spec: \<open>BatteryBankData.from_modbus_registers\<close> (transports/data.py,
  not among the sources). "A BatteryBankRecord is emitted only when the bank-voltage
  register is above a small threshold; below that the caller sees no battery present";
  decoding is total, so a missing register is no error. The record stands for the decoded
  fields: it keeps the registers they are decoded from.
\<close>

definition BatteryBankData_from_modbus_registers ::
  "registers \<Rightarrow> register_map \<Rightarrow> registers option \<Rightarrow> battery_bank option" where
  "BatteryBankData_from_modbus_registers all_registers rm individual_registers =
     (case all_registers (battery_voltage_register rm) of
        None \<Rightarrow> None
      | Some raw \<Rightarrow>
          if no_battery_threshold rm < raw
          then Some \<lparr>bank_registers = all_registers, module_registers = individual_registers\<rparr>
          else None)"

text \<open>
  The first \<open>try\<close> block of \<open>read_battery\<close>: two reads, and \<open>except Exception\<close>
  keeping what \<open>all_registers\<close> holds when one of them raises.
\<close>

definition read_runtime_window :: "device \<Rightarrow> transport \<Rightarrow> registers \<times> transport" where
  "read_runtime_window dev s =
     (case read_input_registers dev s 0 64 of
        (Inl e, s1) \<Rightarrow> (Map.empty, log_msg Warning ''Failed to read runtime registers 0-127'' s1)
      | (Inr runtime_regs_1, s1) \<Rightarrow>
          (case read_input_registers dev s1 64 64 of
             (Inl e, s2) \<Rightarrow>
               (Map.empty ++ registers_from_values 0 runtime_regs_1,
                log_msg Warning ''Failed to read runtime registers 0-127'' s2)
           | (Inr runtime_regs_2, s2) \<Rightarrow>
               (Map.empty ++ registers_from_values 0 runtime_regs_1
                  ++ registers_from_values 64 runtime_regs_2, s2)))"

text \<open>The second \<open>try\<close> block: the individual-battery range, read in chunks.\<close>

definition read_individual ::
  "register_map \<Rightarrow> device \<Rightarrow> transport \<Rightarrow> int \<Rightarrow> registers option \<times> transport" where
  "read_individual rm dev s battery_count =
     (let batteries_to_read = min battery_count (INDIVIDUAL_BATTERY_MAX_COUNT rm);
          total_registers = batteries_to_read * INDIVIDUAL_BATTERY_REGISTER_COUNT rm
      in case read_chunks dev True s Map.empty INDIVIDUAL_BATTERY_BASE_ADDRESS total_registers of
           (Inl e, s1) \<Rightarrow>
             (None, log_msg Warning ''Failed to read individual battery registers (5000+)'' s1)
         | (Inr individual_registers, s1) \<Rightarrow>
             (Some individual_registers, log_msg Debug ''Read individual battery data'' s1))"

definition read_battery ::
  "register_map \<Rightarrow> device \<Rightarrow> transport \<Rightarrow> bool \<Rightarrow> (exn + battery_bank option) \<times> transport" where
  "read_battery rm dev s include_individual =
     (case reconnect_if_needed dev s of
        (Inl e, s0) \<Rightarrow> (Inl e, s0)
      | (Inr u, s0) \<Rightarrow>
          (case read_runtime_window dev s0 of (all_registers, s1) \<Rightarrow>
             (let battery_count = (case all_registers 96 of None \<Rightarrow> 0 | Some c \<Rightarrow> c) in
              case (if include_individual \<and> battery_count > 0
                    then read_individual rm dev s1 battery_count else (None, s1)) of
                (individual_registers, s2) \<Rightarrow>
                  (case BatteryBankData_from_modbus_registers all_registers rm individual_registers of
                     None \<Rightarrow> (Inr None, log_msg Debug ''Battery voltage below threshold'' s2)
                   | Some bank \<Rightarrow>
                       (Inr (Some bank),
                        if module_registers bank \<noteq> None
                        then log_msg Debug ''Loaded individual batteries via Modbus'' s2
                        else s2)))))"

subsection \<open>Identity reads\<close>

text \<open>
  Modelled from the spec: the readers \<open>read_device_type_async\<close>,
  \<open>read_firmware_version_async\<close> and \<open>read_serial_number_async\<close> of
  transports/_register_readers.py, which is not among the sources. Each takes the
  register reader of the transport as its first argument, as the calls in
  \<open>_modbus_base.py\<close> show, and reads through it: "device-type at 19, serial window at
  115, firmware at 7-10, decoded from each word's two ASCII bytes", the low byte first;
  the firmware code is then trimmed. The spec gives the serial window 4 words and the
  docstring of \<open>read_serial_number\<close> names registers 115-119: the number of words is a
  parameter. The second argument of \<open>read_serial_number_async\<close>, the serial the
  transport was built with, is not modelled. A failed read raises, except in the
  firmware reader, which returns the empty string (docstring of
  \<open>read_firmware_version\<close>).
\<close>

type_synonym reader = "transport \<Rightarrow> int \<Rightarrow> int \<Rightarrow> (exn + int list) \<times> transport"

definition ascii_of_words :: "int list \<Rightarrow> string" where
  "ascii_of_words ws = concat (map (\<lambda>w. [char_of (w mod 256), char_of (w div 256 mod 256)]) ws)"

definition is_space :: "char \<Rightarrow> bool" where
  "is_space c \<longleftrightarrow> (of_char c :: nat) \<in> {9, 10, 11, 12, 13, 32}"

definition trim :: "string \<Rightarrow> string" where
  "trim str = rev (dropWhile is_space (rev (dropWhile is_space str)))"

definition read_device_type_async :: "reader \<Rightarrow> transport \<Rightarrow> (exn + int) \<times> transport" where
  "read_device_type_async read_holding s =
     (case read_holding s 19 1 of
        (Inl e, s1) \<Rightarrow> (Inl e, s1)
      | (Inr [], s1) \<Rightarrow> (Inl (Exn TransportReadError ''Failed to read device type'' None), s1)
      | (Inr (v # vs), s1) \<Rightarrow> (Inr v, s1))"

definition read_firmware_version_async :: "reader \<Rightarrow> transport \<Rightarrow> (exn + string) \<times> transport" where
  "read_firmware_version_async read_holding s =
     (case read_holding s 7 4 of
        (Inl e, s1) \<Rightarrow> (Inr [], s1)
      | (Inr vs, s1) \<Rightarrow> (Inr (trim (ascii_of_words vs)), s1))"

definition read_serial_number_async ::
  "reader \<Rightarrow> int \<Rightarrow> transport \<Rightarrow> (exn + string) \<times> transport" where
  "read_serial_number_async read_input serial_words s =
     (case read_input s 115 serial_words of
        (Inl e, s1) \<Rightarrow> (Inl e, s1)
      | (Inr vs, s1) \<Rightarrow> (Inr (ascii_of_words vs), s1))"

text \<open>
  The three methods of the transport, from \<open>_modbus_base.py\<close>: the serial number goes
  through \<open>_read_input_registers\<close>, the firmware code and the device type through
  \<open>_read_holding_registers\<close>.
\<close>

definition read_serial_number ::
  "device \<Rightarrow> transport \<Rightarrow> int \<Rightarrow> (exn + string) \<times> transport" where
  "read_serial_number dev s serial_words =
     read_serial_number_async (\<lambda>t. read_input_registers dev t) serial_words s"

definition read_firmware_version :: "device \<Rightarrow> transport \<Rightarrow> (exn + string) \<times> transport" where
  "read_firmware_version dev s = read_firmware_version_async (\<lambda>t. read_holding_registers dev t) s"

definition read_device_type :: "device \<Rightarrow> transport \<Rightarrow> (exn + int) \<times> transport" where
  "read_device_type dev s = read_device_type_async (\<lambda>t. read_holding_registers dev t) s"

section \<open>The IP-range parser of the scanner (scanner/utils.py)\<close>

text \<open>
  Modelled from the spec: \<open>parse_ip_range\<close> of scanner/utils.py, which is not among
  the sources; only its tests and its caller are. The model covers the inputs without a
  dash, a single IPv4 address or a CIDR range: surrounding whitespace is dropped, IPv6 is
  rejected, the address may have host bits set, only networks inside 10.0.0.0/8,
  172.16.0.0/12, 192.168.0.0/16 and 100.64.0.0/10 are allowed, more than 4094 hosts are
  rejected, and "CIDR excludes network and broadcast addresses". A /32 yields its one
  address, as a single address does: tests/unit/scanner/test_utils.py,
  \<open>test_cidr_notation_slash32\<close>, expects \<open>["192.168.1.50"]\<close> for
  \<open>"192.168.1.50/32"\<close>. For a /31 the rule of the spec leaves no host; no test fixes
  that case and nothing below is proved about it. The dash syntax is not modelled.
\<close>

datatype config_error = InvalidRange | IPv6NotSupported | NotPrivate | TooManyHosts

definition MAX_SAFE_HOSTS :: nat where
  "MAX_SAFE_HOSTS = 4094"

subsection \<open>Decimal numbers and dotted quads\<close>

definition is_digit :: "char \<Rightarrow> bool" where
  "is_digit c \<longleftrightarrow> 48 \<le> (of_char c :: nat) \<and> (of_char c :: nat) \<le> 57"

definition digit_value :: "char \<Rightarrow> nat" where
  "digit_value c = of_char c - 48"

definition parse_decimal :: "string \<Rightarrow> nat option" where
  "parse_decimal str =
     (if str \<noteq> [] \<and> list_all is_digit str
      then Some (foldl (\<lambda>n c. 10 * n + digit_value c) 0 str) else None)"

fun split_on :: "char \<Rightarrow> string \<Rightarrow> string list" where
  "split_on sep [] = [[]]"
| "split_on sep (c # cs) =
     (if c = sep then [] # split_on sep cs
      else (case split_on sep cs of w # ws \<Rightarrow> (c # w) # ws | [] \<Rightarrow> [[c]]))"

text \<open>An address is the number its four octets spell in base 256.\<close>

definition parse_ipv4 :: "string \<Rightarrow> nat option" where
  "parse_ipv4 str =
     (case map parse_decimal (split_on CHR ''.'' str) of
        [Some a, Some b, Some c, Some d] \<Rightarrow>
          if a \<le> 255 \<and> b \<le> 255 \<and> c \<le> 255 \<and> d \<le> 255
          then Some (((a * 256 + b) * 256 + c) * 256 + d) else None
      | _ \<Rightarrow> None)"

definition digit_char :: "nat \<Rightarrow> char" where
  "digit_char d = ''0123456789'' ! d"

fun show_decimal :: "nat \<Rightarrow> string" where
  "show_decimal n =
     (if n < 10 then [digit_char n] else show_decimal (n div 10) @ [digit_char (n mod 10)])"

declare show_decimal.simps [simp del]

definition format_ipv4 :: "nat \<Rightarrow> string" where
  "format_ipv4 n =
     show_decimal (n div 16777216) @ ''.'' @ show_decimal (n div 65536 mod 256) @ ''.''
       @ show_decimal (n div 256 mod 256) @ ''.'' @ show_decimal (n mod 256)"

subsection \<open>Networks\<close>

text \<open>\<open>a.b.c.d/p\<close>, or an address alone, which is a network of prefix length 32.\<close>

definition parse_cidr :: "string \<Rightarrow> (nat \<times> nat) option" where
  "parse_cidr str =
     (case split_on CHR ''/'' str of
        [a] \<Rightarrow> (case parse_ipv4 a of Some addr \<Rightarrow> Some (addr, 32) | None \<Rightarrow> None)
      | [a, p] \<Rightarrow>
          (case (parse_ipv4 a, parse_decimal p) of
             (Some addr, Some prefix) \<Rightarrow> if prefix \<le> 32 then Some (addr, prefix) else None
           | _ \<Rightarrow> None)
      | _ \<Rightarrow> None)"

definition network_address :: "nat \<Rightarrow> nat \<Rightarrow> nat" where
  "network_address addr prefix = addr - addr mod 2 ^ (32 - prefix)"

definition broadcast_address :: "nat \<Rightarrow> nat \<Rightarrow> nat" where
  "broadcast_address addr prefix = network_address addr prefix + 2 ^ (32 - prefix) - 1"

text \<open>10.0.0.0/8, 172.16.0.0/12, 192.168.0.0/16 and 100.64.0.0/10.\<close>

definition allowed_blocks :: "(nat \<times> nat) list" where
  "allowed_blocks = [(167772160, 8), (2886729728, 12), (3232235520, 16), (1681915904, 10)]"

definition is_private :: "nat \<Rightarrow> nat \<Rightarrow> bool" where
  "is_private addr prefix =
     list_ex (\<lambda>(block, q). q \<le> prefix \<and> network_address addr q = block) allowed_blocks"

definition host_count :: "nat \<Rightarrow> nat" where
  "host_count prefix = (if prefix = 32 then 1 else 2 ^ (32 - prefix) - 2)"

definition network_hosts :: "nat \<Rightarrow> nat \<Rightarrow> nat list" where
  "network_hosts addr prefix =
     (if prefix = 32 then [addr]
      else map (\<lambda>i. network_address addr prefix + i) [1..<2 ^ (32 - prefix) - 1])"

definition parse_ip_network :: "string \<Rightarrow> config_error + string list" where
  "parse_ip_network ip_range =
     (let str = trim ip_range in
      if CHR '':'' \<in> set str then Inl IPv6NotSupported
      else (case parse_cidr str of
              None \<Rightarrow> Inl InvalidRange
            | Some (addr, prefix) \<Rightarrow>
                if \<not> is_private addr prefix then Inl NotPrivate
                else if MAX_SAFE_HOSTS < host_count prefix then Inl TooManyHosts
                else Inr (map format_ipv4 (network_hosts addr prefix))))"

section \<open>Reference definitions and sample inputs\<close>

subsection \<open>Transports and devices used as concrete inputs\<close>

text \<open>
  The attributes \<open>__init__\<close> sets with its default arguments, and the same transport
  after a successful \<open>connect()\<close>.
\<close>

definition initial_transport :: transport where
  "initial_transport =
     \<lparr>connected = False, client_present = False, retries = 2, retry_delay = 1 / 2,
      inter_register_delay = 1 / 20, consecutive_errors = 0, last_read_retried = False,
      exchanges = 0, trace = [], logged = []\<rparr>"

definition connected_transport :: transport where
  "connected_transport = initial_transport\<lparr>connected := True, client_present := True\<rparr>"

text \<open>A device that answers every request with a Modbus exception response.\<close>

definition exception_device :: device where
  "exception_device n req = ErrorResponse"

text \<open>A device whose first exchange times out and that answers every later one.\<close>

definition flaky_device :: device where
  "flaky_device n req = (if n = 0 then Raises BuiltinTimeout else Response (Some [7]))"

subsection \<open>What a read with retries is expected to do\<close>

text \<open>
  The exchanges of a read that fails \<open>j\<close> times before its last attempt: each failed
  attempt is followed by a sleep of \<open>retry_delay * 2 ^ attempt\<close>, the last attempt by
  nothing.
\<close>

definition backoff_trace :: "request \<Rightarrow> real \<Rightarrow> nat \<Rightarrow> nat \<Rightarrow> event list" where
  "backoff_trace req d a j =
     concat (map (\<lambda>i. [Request req, SleepRetry (d * 2 ^ (a + i))]) [0..<j]) @ [Request req]"

text \<open>What the caller sees when the last attempt got the reply \<open>r\<close>.\<close>

fun read_outcome :: "reply \<Rightarrow> exn + int list" where
  "read_outcome (Response (Some regs)) = Inr regs"
| "read_outcome r = Inl (read_failure r)"

subsection \<open>Reading the trace\<close>

text \<open>The requests among the events of a trace, in the order they were issued.\<close>

fun requests :: "event list \<Rightarrow> request list" where
  "requests [] = []"
| "requests (Request req # evs) = req # requests evs"
| "requests (e # evs) = requests evs"

text \<open>The number of 16-bit words a frame asks for or carries, and its first address.\<close>

fun words :: "request \<Rightarrow> int" where
  "words (ReadInput a c) = c"
| "words (ReadHolding a c) = c"
| "words (WriteRegister a v) = 1"
| "words (WriteRegisters a vs) = int (length vs)"
| "words ConnectReq = 0"

fun start_of :: "request \<Rightarrow> int" where
  "start_of (ReadInput a c) = a"
| "start_of (ReadHolding a c) = a"
| "start_of (WriteRegister a v) = a"
| "start_of (WriteRegisters a vs) = a"
| "start_of ConnectReq = 0"

text \<open>The addresses a frame covers.\<close>

definition window :: "request \<Rightarrow> int set" where
  "window req = {start_of req ..< start_of req + words req}"

text \<open>A device that answers every read with as many zero registers as were asked for.\<close>

definition zero_device :: device where
  "zero_device n req =
     (case req of
        ReadInput a c \<Rightarrow> Response (Some (replicate (nat c) 0))
      | ReadHolding a c \<Rightarrow> Response (Some (replicate (nat c) 0))
      | _ \<Rightarrow> Response None)"

text \<open>
  A later state extends an earlier one when its trace is the earlier trace followed by
  the events issued in between; every operation of the transport only appends.
\<close>

definition extends :: "transport \<Rightarrow> transport \<Rightarrow> bool" where
  "extends s s' \<longleftrightarrow> trace s' = trace s @ issued s s'"

text \<open>The attributes that no read changes.\<close>

definition same_config :: "transport \<Rightarrow> transport \<Rightarrow> bool" where
  "same_config s s' \<longleftrightarrow> connected s' = connected s \<and> client_present s' = client_present s
     \<and> retries s' = retries s \<and> retry_delay s' = retry_delay s
     \<and> inter_register_delay s' = inter_register_delay s"

subsection \<open>Maximal runs of consecutive addresses\<close>

text \<open>
  The runs of a list of items sorted by address, following the words of the spec: a run
  goes on as long as the next address is the previous one plus one, and a new run starts
  at every gap. This definition looks at neighbouring items only; it does not follow the
  grouping loop of the code, which compares with the start and the length of the group
  under construction.
\<close>

fun maximal_runs :: "params \<Rightarrow> params list" where
  "maximal_runs [] = []"
| "maximal_runs [p] = [[p]]"
| "maximal_runs (p # q # rest) =
     (if fst q = fst p + 1
      then (case maximal_runs (q # rest) of r # rs \<Rightarrow> (p # r) # rs | [] \<Rightarrow> [[p]])
      else [p] # maximal_runs (q # rest))"






subsection \<open>Pacing between register groups\<close>

text \<open>
  The trace of a batch is cut at the sleeps between groups: each segment holds the
  exchanges and the retry sleeps of one group.
\<close>

fun segments :: "event list \<Rightarrow> event list list" where
  "segments [] = [[]]"
| "segments (SleepGroup d # evs) = [] # segments evs"
| "segments (e # evs) = (case segments evs of seg # segs \<Rightarrow> (e # seg) # segs | [] \<Rightarrow> [[e]])"

fun group_sleeps :: "event list \<Rightarrow> real list" where
  "group_sleeps [] = []"
| "group_sleeps (SleepGroup d # evs) = d # group_sleeps evs"
| "group_sleeps (e # evs) = group_sleeps evs"

fun is_retry_sleep :: "event \<Rightarrow> bool" where
  "is_retry_sleep (SleepRetry d) = True"
| "is_retry_sleep e = False"

text \<open>The read of a group needed a retry when its segment holds a retry sleep.\<close>

definition retried :: "event list \<Rightarrow> bool" where
  "retried seg = list_ex is_retry_sleep seg"

text \<open>
  The delays the spec asks for: \<open>d\<close> is doubled, capped at one second, after a
  group that needed a retry and left alone otherwise; the delay after a group is the
  value \<open>d\<close> has then, and it stays for the groups that follow.
\<close>

fun pace :: "real \<Rightarrow> bool list \<Rightarrow> real list" where
  "pace d [] = []"
| "pace d (r # rs) = (if r then min (d * 2) 1 else d) # pace (if r then min (d * 2) 1 else d) rs"

text \<open>The one request the read of a group sends, possibly several times.\<close>

definition group_request :: "string \<times> int \<times> int \<Rightarrow> request" where
  "group_request g = (case g of (group_name, start, count) \<Rightarrow> ReadInput start (min count 40))"

text \<open>A stretch of trace without a sleep between groups.\<close>

definition no_group_sleep :: "event list \<Rightarrow> bool" where
  "no_group_sleep evs \<longleftrightarrow> (\<forall>d. SleepGroup d \<notin> set evs)"

subsection \<open>Devices and decoders for the energy read\<close>





subsection \<open>Devices for the battery read\<close>

text \<open>
  A device whose registers all read 0 but register 96, the battery count, which reads 1.
  The transport asks for 40 registers at 64, so register 96 is the 33rd of that reply.
\<close>

definition battery_count_device :: device where
  "battery_count_device n req =
     (case req of
        ReadInput a c \<Rightarrow>
          if a = 64 then Response (Some (replicate 32 0 @ [1] @ replicate 7 0))
          else Response (Some (replicate (nat c) 0))
      | ReadHolding a c \<Rightarrow> Response (Some (replicate (nat c) 0))
      | _ \<Rightarrow> Response None)"


subsection \<open>A device with an identity\<close>

text \<open>
  A device whose input registers at 115 spell \<open>CE123456\<close> and whose holding registers
  at 7 spell \<open>FAAB2525\<close>, two characters to a word with the low byte first; holding
  register 19 reads 2092 and every other register 0.
\<close>

definition identity_device :: device where
  "identity_device n req =
     (case req of
        ReadInput a c \<Rightarrow>
          if a = 115 then Response (Some [17731, 12849, 13363, 13877])
          else Response (Some (replicate (nat c) 0))
      | ReadHolding a c \<Rightarrow>
          if a = 7 then Response (Some [16710, 16961, 13618, 13618])
          else if a = 19 then Response (Some [2092])
          else Response (Some (replicate (nat c) 0))
      | _ \<Rightarrow> Response None)"

section \<open>Properties\<close>

text \<open>
  C10. \<open>write_parameters\<close> on an empty parameter map issues no write frame and returns
  True: the transport state, trace included, is returned as it was given, whatever the
  device and whatever the state (connected or not).
\<close>

theorem write_parameters_empty:
  "write_parameters dev s [] = (Inr True, s)"
  by (simp add: write_parameters_def sorted_items_def group_consecutive_def)

subsection \<open>The retry loop\<close>

lemma backoff_trace_0: "backoff_trace req d a 0 = [Request req]"
  by (simp add: backoff_trace_def)

lemma backoff_trace_Suc:
  "backoff_trace req d a (Suc j) = Request req # SleepRetry (d * 2 ^ a) # backoff_trace req d (Suc a) j"
proof -
  have "[0..<Suc j] = 0 # map Suc [0..<j]"
    by (simp add: upt_conv_Cons map_Suc_upt del: upt_Suc)
  then show ?thesis
    by (simp add: backoff_trace_def comp_def del: upt_Suc)
qed

lemma attempt_loop_run:
  assumes "a + k = nat (retries s + 1)" "j < k"
    and "\<forall>i<j. retriable (dev (exchanges s + i) (read_request inp address count))"
    and "Suc j = k \<or> \<not> retriable (dev (exchanges s + j) (read_request inp address count))"
  shows "fst (attempt_loop dev address count inp [a..<a + k] lerr s)
           = read_outcome (dev (exchanges s + j) (read_request inp address count))
       \<and> trace (snd (attempt_loop dev address count inp [a..<a + k] lerr s))
           = trace s @ backoff_trace (read_request inp address count) (retry_delay s) a j"
  using assms
proof (induction k arbitrary: a j s lerr)
  case 0
  then show ?case by simp
next
  case (Suc k)
  let ?req = "read_request inp address count"
  let ?r = "dev (exchanges s) ?req"
  have upt: "[a..<a + Suc k] = a # [Suc a..<Suc a + k]"
    by (simp add: upt_conv_Cons del: upt_Suc)
  show ?case
  proof (cases j)
    case 0
    show ?thesis
    proof (cases "retriable ?r")
      case False
      then show ?thesis using 0
        apply (simp only: upt)
        apply (cases ?r rule: retriable.cases)
        apply (auto simp: exchange_def emit_def backoff_trace_0)
        done
    next
      case True
      with Suc.prems 0 have k0: "k = 0" by simp
      with Suc.prems have "\<not> int a < retries s" by linarith
      then show ?thesis using 0 True k0
        apply (simp only: upt)
        apply (cases ?r rule: retriable.cases)
        apply (auto simp: exchange_def emit_def backoff_trace_0 log_msg_def Let_def)
        done
    qed
  next
    case (Suc j')
    with Suc.prems have r: "retriable ?r" by auto
    from Suc Suc.prems have lt: "int a < retries s" by linarith
    define s3 where "s3 = emit (SleepRetry (retry_delay s * 2 ^ a))
              (log_msg Debug ''Retry reading registers''
                 (s\<lparr>exchanges := Suc (exchanges s), trace := trace s @ [Request ?req],
                    consecutive_errors := Suc (consecutive_errors s), last_read_retried := True\<rparr>))"
    have step: "attempt_loop dev address count inp (a # [Suc a..<Suc a + k]) lerr s
        = attempt_loop dev address count inp [Suc a..<Suc a + k] (Some (read_failure ?r)) s3"
      using r lt
      apply (cases ?r rule: retriable.cases)
      apply (auto simp: exchange_def emit_def log_msg_def Let_def s3_def)
      done
    have s3: "retries s3 = retries s" "retry_delay s3 = retry_delay s"
      "exchanges s3 = Suc (exchanges s)"
      "trace s3 = trace s @ [Request ?req, SleepRetry (retry_delay s * 2 ^ a)]"
      by (simp_all add: s3_def emit_def log_msg_def)
    have p1: "Suc a + k = nat (retries s3 + 1)" using Suc.prems s3 by simp
    have p2: "j' < k" using Suc.prems Suc by simp
    have p3: "\<forall>i<j'. retriable (dev (exchanges s3 + i) ?req)"
    proof (intro allI impI)
      fix i assume "i < j'"
      then have "Suc i < j" using Suc by simp
      with Suc.prems(3) have "retriable (dev (exchanges s + Suc i) ?req)" by blast
      then show "retriable (dev (exchanges s3 + i) ?req)" by (simp add: s3)
    qed
    have p4: "Suc j' = k \<or> \<not> retriable (dev (exchanges s3 + j') ?req)"
      using Suc.prems(4) Suc by (simp add: s3)
    have IH: "fst (attempt_loop dev address count inp [Suc a..<Suc a + k] (Some (read_failure ?r)) s3)
           = read_outcome (dev (exchanges s3 + j') ?req)
       \<and> trace (snd (attempt_loop dev address count inp [Suc a..<Suc a + k] (Some (read_failure ?r)) s3))
           = trace s3 @ backoff_trace ?req (retry_delay s3) (Suc a) j'"
      by (rule Suc.IH [where a = "Suc a" and s = s3 and j = j'
            and lerr = "Some (read_failure ?r)", OF p1 p2 p3 p4])
    have eq: "attempt_loop dev address count inp [a..<a + Suc k] lerr s
        = attempt_loop dev address count inp [Suc a..<Suc a + k] (Some (read_failure ?r)) s3"
      by (simp only: upt step)
    show ?thesis
      unfolding eq using IH by (simp add: s3 Suc backoff_trace_Suc del: upt_Suc)
  qed
qed

lemma read_failure_cause:
  "retriable (Raises x) \<Longrightarrow> cause (read_failure (Raises x)) = Some (exn_of_raised x)"
  by (cases x) auto

text \<open>
  C1, as the code has it. A read on a connected transport with \<open>retries = R \<ge> 0\<close>
  makes at most \<open>R + 1\<close> attempts. Every failed attempt that an \<open>except\<close> clause
  catches is retried: a timeout, an I/O error, and also a Modbus exception response and a
  response without registers, which the code raises as \<open>TransportReadError\<close> inside the
  \<open>try\<close> and catches again. If the first \<open>j\<close> attempts fail in that way and attempt
  \<open>j\<close> is the last one allowed or does not, the exchanges are \<open>j\<close> requests, each
  followed by a sleep of \<open>retry_delay * 2 ^ attempt\<close>, and one last request; what is
  returned or raised is decided by the last reply alone, and an error made from an
  exception of the client carries that exception as its cause.
\<close>

theorem read_registers_retries_every_failure:
  assumes "connected s" and "client_present s" and "0 \<le> retries s"
    and "j \<le> nat (retries s)"
    and "\<forall>i<j. retriable (dev (exchanges s + i) (read_request inp address count))"
    and "j = nat (retries s) \<or> \<not> retriable (dev (exchanges s + j) (read_request inp address count))"
  shows "fst (read_registers dev s address count inp)
           = read_outcome (dev (exchanges s + j) (read_request inp address count))
       \<and> issued s (snd (read_registers dev s address count inp))
           = backoff_trace (read_request inp address count) (retry_delay s) 0 j
       \<and> (\<forall>x. dev (exchanges s + j) (read_request inp address count) = Raises x
              \<and> retriable (Raises x)
            \<longrightarrow> (\<exists>e. fst (read_registers dev s address count inp) = Inl e
                     \<and> cause e = Some (exn_of_raised x)))"
proof -
  let ?s0 = "s\<lparr>last_read_retried := False\<rparr>"
  let ?k = "nat (retries s + 1)"
  have k: "0 + ?k = nat (retries ?s0 + 1)" by simp
  have j: "j < ?k" using assms(3,4) by linarith
  have a: "\<forall>i<j. retriable (dev (exchanges ?s0 + i) (read_request inp address count))"
    using assms(5) by simp
  have b: "Suc j = ?k \<or> \<not> retriable (dev (exchanges ?s0 + j) (read_request inp address count))"
    using assms(3,6) by auto
  have run: "fst (attempt_loop dev address count inp [0..<0 + ?k] None ?s0)
           = read_outcome (dev (exchanges ?s0 + j) (read_request inp address count))
       \<and> trace (snd (attempt_loop dev address count inp [0..<0 + ?k] None ?s0))
           = trace ?s0 @ backoff_trace (read_request inp address count) (retry_delay ?s0) 0 j"
    by (rule attempt_loop_run [where a = 0 and k = "?k" and s = "?s0" and j = j and dev = dev
          and inp = inp and address = address and count = count and lerr = None, OF k j a b])
  have unfold: "read_registers dev s address count inp
      = attempt_loop dev address count inp [0..<0 + ?k] None ?s0"
    using assms(1,2) by (simp add: read_registers_def)
  have 1: "fst (read_registers dev s address count inp)
           = read_outcome (dev (exchanges s + j) (read_request inp address count))"
    using run unfold by simp
  have 2: "issued s (snd (read_registers dev s address count inp))
           = backoff_trace (read_request inp address count) (retry_delay s) 0 j"
    using run unfold by (simp add: issued_def)
  have 3: "\<forall>x. dev (exchanges s + j) (read_request inp address count) = Raises x
              \<and> retriable (Raises x)
            \<longrightarrow> (\<exists>e. fst (read_registers dev s address count inp) = Inl e
                     \<and> cause e = Some (exn_of_raised x))"
  proof (intro allI impI)
    fix x
    assume h: "dev (exchanges s + j) (read_request inp address count) = Raises x
              \<and> retriable (Raises x)"
    then have "fst (read_registers dev s address count inp) = Inl (read_failure (Raises x))"
      using 1 by simp
    with h show "\<exists>e. fst (read_registers dev s address count inp) = Inl e
                     \<and> cause e = Some (exn_of_raised x)"
      using read_failure_cause by blast
  qed
  from 1 2 3 show ?thesis by blast
qed

text \<open>
  Witness for C1: the theorem at the default transport, with a device that times out once.
\<close>

theorem read_registers_retries_every_failure_witness:
  "connected connected_transport \<and> client_present connected_transport
   \<and> 0 \<le> retries connected_transport \<and> 1 \<le> nat (retries connected_transport)
   \<and> retriable (flaky_device (exchanges connected_transport + 0) (read_request True 0 32))
   \<and> \<not> retriable (flaky_device (exchanges connected_transport + 1) (read_request True 0 32))
   \<and> fst (read_registers flaky_device connected_transport 0 32 True) = Inr [7]
   \<and> issued connected_transport (snd (read_registers flaky_device connected_transport 0 32 True))
       = [Request (ReadInput 0 32), SleepRetry (1 / 2), Request (ReadInput 0 32)]"
  using read_registers_retries_every_failure
    [of connected_transport 1 flaky_device True 0 32]
  by (simp add: connected_transport_def initial_transport_def flaky_device_def
      read_request_def backoff_trace_def)

text \<open>
  C1 as stated fails: with the default \<open>retries = 2\<close>, a device that answers with a
  Modbus exception response is asked three times, with sleeps of 0.5 s and 1 s between
  the attempts.
\<close>

theorem exception_response_is_retried:
  "issued connected_transport (snd (read_registers exception_device connected_transport 0 1 False))
     = [Request (ReadHolding 0 1), SleepRetry (1 / 2), Request (ReadHolding 0 1), SleepRetry 1,
        Request (ReadHolding 0 1)]
   \<and> fst (read_registers exception_device connected_transport 0 1 False)
     = Inl (Exn TransportReadError ''Modbus read error'' None)"
  by (simp add: read_registers_def connected_transport_def initial_transport_def
      exception_device_def read_request_def exchange_def emit_def log_msg_def issued_def
      upt_rec)

subsection \<open>Traces of reads\<close>

lemma log_msg_simps [simp]:
  "trace (log_msg l m s) = trace s" "connected (log_msg l m s) = connected s"
  "client_present (log_msg l m s) = client_present s" "retries (log_msg l m s) = retries s"
  "retry_delay (log_msg l m s) = retry_delay s"
  "inter_register_delay (log_msg l m s) = inter_register_delay s"
  "consecutive_errors (log_msg l m s) = consecutive_errors s"
  "last_read_retried (log_msg l m s) = last_read_retried s"
  "exchanges (log_msg l m s) = exchanges s"
  "logged (log_msg l m s) = logged s @ [(l, m)]"
  by (simp_all add: log_msg_def)

lemma emit_simps [simp]:
  "trace (emit e s) = trace s @ [e]" "connected (emit e s) = connected s"
  "client_present (emit e s) = client_present s" "retries (emit e s) = retries s"
  "retry_delay (emit e s) = retry_delay s"
  "inter_register_delay (emit e s) = inter_register_delay s"
  "consecutive_errors (emit e s) = consecutive_errors s"
  "last_read_retried (emit e s) = last_read_retried s"
  "exchanges (emit e s) = exchanges s"
  "logged (emit e s) = logged s"
  by (simp_all add: emit_def)

lemma extendsI: "trace s' = trace s @ evs \<Longrightarrow> extends s s'"
  by (simp add: extends_def issued_def)

lemma issuedI: "trace s' = trace s @ evs \<Longrightarrow> issued s s' = evs"
  by (simp add: issued_def)

lemma extends_refl: "extends s s"
  by (simp add: extends_def issued_def)

lemma extends_trans:
  "extends s s1 \<Longrightarrow> extends s1 s2 \<Longrightarrow> extends s s2"
  by (metis append.assoc extendsI extends_def)

lemma issued_trans:
  "extends s s1 \<Longrightarrow> extends s1 s2 \<Longrightarrow> issued s s2 = issued s s1 @ issued s1 s2"
  by (metis append.assoc issuedI extends_def)

lemma issued_refl: "issued s s = []"
  by (simp add: issued_def)

lemma extends_log [simp]: "extends s (log_msg l m s')  \<longleftrightarrow> extends s s'"
  by (simp add: extends_def issued_def)

lemma issued_log [simp]: "issued s (log_msg l m s') = issued s s'"
  by (simp add: issued_def)

lemma attempt_loop_inv:
  "extends s (snd (attempt_loop dev a c inp as lerr s))
   \<and> set (issued s (snd (attempt_loop dev a c inp as lerr s)))
        \<subseteq> insert (Request (read_request inp a c)) (range SleepRetry)
   \<and> (last_read_retried (snd (attempt_loop dev a c inp as lerr s))
        \<longleftrightarrow> last_read_retried s
            \<or> (\<exists>d. SleepRetry d \<in> set (issued s (snd (attempt_loop dev a c inp as lerr s)))))
   \<and> (\<forall>vs. fst (attempt_loop dev a c inp as lerr s) = Inr vs
        \<longrightarrow> Request (read_request inp a c) \<in> set (issued s (snd (attempt_loop dev a c inp as lerr s)))
            \<and> consecutive_errors (snd (attempt_loop dev a c inp as lerr s)) = 0)
   \<and> same_config s (snd (attempt_loop dev a c inp as lerr s))
   \<and> exchanges s \<le> exchanges (snd (attempt_loop dev a c inp as lerr s))"
proof (induction as arbitrary: s lerr)
  case Nil
  show ?case
    by (simp add: extends_refl issued_refl same_config_def split: option.splits)
next
  case (Cons attempt rest)
  let ?req = "read_request inp a c"
  let ?r = "dev (exchanges s) ?req"
  let ?s1 = "emit (Request ?req) (s\<lparr>exchanges := Suc (exchanges s)\<rparr>)"
  have s1: "trace ?s1 = trace s @ [Request ?req]" by (simp add: emit_def)
  show ?case
  proof (cases "retriable ?r")
    case False
    then show ?thesis
      apply (cases ?r rule: retriable.cases)
      apply (auto simp: exchange_def extends_def issued_def same_config_def)
      done
  next
    case True
    define s3 where "s3 = (let s2 = ?s1\<lparr>consecutive_errors := Suc (consecutive_errors ?s1)\<rparr>
        in if int attempt < retries s2
           then emit (SleepRetry (retry_delay s2 * 2 ^ attempt))
                  (log_msg Debug ''Retry reading registers'' (s2\<lparr>last_read_retried := True\<rparr>))
           else s2)"
    have step: "attempt_loop dev a c inp (attempt # rest) lerr s
        = attempt_loop dev a c inp rest (Some (read_failure ?r)) s3"
      using True
      apply (cases ?r rule: retriable.cases)
      apply (simp_all add: exchange_def s3_def Let_def)
      done
    let ?s' = "snd (attempt_loop dev a c inp rest (Some (read_failure ?r)) s3)"
    have e3: "extends s s3"
      by (rule extendsI [where evs = "if int attempt < retries s
            then [Request ?req, SleepRetry (retry_delay s * 2 ^ attempt)] else [Request ?req]"])
         (simp add: s3_def Let_def)
    have i3: "issued s s3 = (if int attempt < retries s
            then [Request ?req, SleepRetry (retry_delay s * 2 ^ attempt)] else [Request ?req])"
      by (rule issuedI) (simp add: s3_def Let_def)
    have f3: "last_read_retried s3 \<longleftrightarrow> last_read_retried s \<or> int attempt < retries s"
      "same_config s s3" "exchanges s \<le> exchanges s3"
      by (auto simp: s3_def Let_def same_config_def)
    note IH = Cons.IH [of s3 "Some (read_failure ?r)"]
    have ext: "extends s ?s'" using IH e3 extends_trans by blast
    have iss: "issued s ?s' = issued s s3 @ issued s3 ?s'"
      using IH e3 issued_trans by blast
    show ?thesis
      unfolding step using IH ext iss i3 f3
      by (auto simp: same_config_def)
  qed
qed

lemma read_registers_inv:
  "extends s (snd (read_registers dev s a c inp))
   \<and> set (issued s (snd (read_registers dev s a c inp)))
        \<subseteq> insert (Request (read_request inp a c)) (range SleepRetry)
   \<and> (\<forall>vs. fst (read_registers dev s a c inp) = Inr vs
        \<longrightarrow> Request (read_request inp a c) \<in> set (issued s (snd (read_registers dev s a c inp)))
            \<and> consecutive_errors (snd (read_registers dev s a c inp)) = 0
            \<and> (last_read_retried (snd (read_registers dev s a c inp))
                 \<longleftrightarrow> (\<exists>d. SleepRetry d \<in> set (issued s (snd (read_registers dev s a c inp)))))
            \<and> connected s \<and> client_present s)
   \<and> same_config s (snd (read_registers dev s a c inp))
   \<and> exchanges s \<le> exchanges (snd (read_registers dev s a c inp))"
proof (cases "connected s \<and> client_present s")
  case False
  then show ?thesis
    by (auto simp: read_registers_def extends_refl issued_refl same_config_def)
next
  case True
  let ?s0 = "s\<lparr>last_read_retried := False\<rparr>"
  let ?as = "[0..<nat (retries s + 1)]"
  have unfold: "read_registers dev s a c inp = attempt_loop dev a c inp ?as None ?s0"
    using True by (simp add: read_registers_def)
  have tr: "trace ?s0 = trace s" by simp
  have [simp]: "issued s x = issued ?s0 x" for x by (simp add: issued_def)
  have [simp]: "extends s x = extends ?s0 x" for x by (simp add: extends_def)
  have [simp]: "same_config s x = same_config ?s0 x" for x by (simp add: same_config_def)
  show ?thesis
    unfolding unfold using attempt_loop_inv [of ?s0 dev a c inp ?as None] True
    by simp
qed


lemma requests_append [simp]: "requests (xs @ ys) = requests xs @ requests ys"
  by (induction xs rule: requests.induct) simp_all

lemma set_requests: "set (requests evs) = {req. Request req \<in> set evs}"
  by (induction evs rule: requests.induct) auto

lemma read_registers_requests:
  "set (requests (issued s (snd (read_registers dev s a c inp)))) \<subseteq> {read_request inp a c}"
  using read_registers_inv [of s dev a c inp] by (auto simp: set_requests)

lemma read_registers_requests_ok:
  "fst (read_registers dev s a c inp) = Inr vs
   \<Longrightarrow> set (requests (issued s (snd (read_registers dev s a c inp)))) = {read_request inp a c}"
  using read_registers_inv [of s dev a c inp] by (auto simp: set_requests)

lemma sorted_const: "set xs \<subseteq> {x} \<Longrightarrow> sorted (map f xs)"
  by (induction xs) auto

lemma read_chunks_inv:
  "extends s (snd (read_chunks dev inp s result a n))
   \<and> same_config s (snd (read_chunks dev inp s result a n))
   \<and> (\<forall>req \<in> set (requests (issued s (snd (read_chunks dev inp s result a n)))).
        (\<exists>a' c. req = (if inp then ReadInput a' c else ReadHolding a' c))
        \<and> a \<le> start_of req \<and> 1 \<le> words req \<and> words req \<le> 40
        \<and> start_of req + words req \<le> a + n)
   \<and> sorted (map start_of (requests (issued s (snd (read_chunks dev inp s result a n)))))
   \<and> (\<forall>r. fst (read_chunks dev inp s result a n) = Inr r
        \<longrightarrow> (\<Union>req \<in> set (requests (issued s (snd (read_chunks dev inp s result a n)))). window req)
            = {a ..< a + n})"
proof (induction dev inp s result a n rule: read_chunks.induct)
  case (1 dev inp s result a n)
  show ?case
  proof (cases "n > 0")
    case False
    then show ?thesis
      by (simp add: read_chunks.simps [of dev inp s result a n] extends_refl issued_refl
          same_config_def)
  next
    case True
    let ?c = "min n 40"
    let ?rr = "read_registers dev s a ?c inp"
    let ?s1 = "snd ?rr"
    let ?req = "read_request inp a ?c"
    note inv = read_registers_inv [of s dev a ?c inp]
    have req: "?req = (if inp then ReadInput a ?c else ReadHolding a ?c)"
      by (simp add: read_request_def)
    have reqs: "set (requests (issued s ?s1)) \<subseteq> {?req}"
      by (rule read_registers_requests)
    show ?thesis
    proof (cases "fst ?rr")
      case (Inl e)
      then have unfold: "read_chunks dev inp s result a n = (Inl e, ?s1)"
        using True by (simp add: read_chunks.simps [of dev inp s result a n] case_prod_beta)
      have "\<forall>req \<in> set (requests (issued s ?s1)).
        (\<exists>a' c. req = (if inp then ReadInput a' c else ReadHolding a' c))
        \<and> a \<le> start_of req \<and> 1 \<le> words req \<and> words req \<le> 40
        \<and> start_of req + words req \<le> a + n"
        using reqs True req by auto
      moreover have "sorted (map start_of (requests (issued s ?s1)))"
        using reqs by (rule sorted_const)
      ultimately show ?thesis
        unfolding unfold using inv by simp
    next
      case (Inr vs)
      let ?res = "result ++ registers_from_values a vs"
      let ?rc = "read_chunks dev inp ?s1 ?res (a + ?c) (n - ?c)"
      let ?s2 = "snd ?rc"
      have pr: "?rr = (Inr vs, ?s1)" using Inr by (simp add: prod_eq_iff)
      have unfold: "read_chunks dev inp s result a n = ?rc"
        using True Inr by (simp add: read_chunks.simps [of dev inp s result a n] case_prod_beta)
      note IH = "1.IH" [OF True pr [symmetric] refl]
      have e1: "extends s ?s1" using inv by simp
      have e2: "extends ?s1 ?s2" using IH by simp
      have ext: "extends s ?s2" using e1 e2 by (rule extends_trans)
      have iss: "issued s ?s2 = issued s ?s1 @ issued ?s1 ?s2"
        using e1 e2 by (rule issued_trans)
      have cfg: "same_config s ?s2"
        using inv IH by (simp add: same_config_def)
      have reqs1: "set (requests (issued s ?s1)) = {?req}"
        using Inr by (rule read_registers_requests_ok)
      have first: "\<forall>r \<in> set (requests (issued s ?s1)).
        (\<exists>a' c. r = (if inp then ReadInput a' c else ReadHolding a' c))
        \<and> a \<le> start_of r \<and> 1 \<le> words r \<and> words r \<le> 40
        \<and> start_of r + words r \<le> a + n \<and> start_of r = a"
        using reqs1 True req by auto
      have rest: "\<forall>r \<in> set (requests (issued ?s1 ?s2)).
        (\<exists>a' c. r = (if inp then ReadInput a' c else ReadHolding a' c))
        \<and> a + ?c \<le> start_of r \<and> 1 \<le> words r \<and> words r \<le> 40
        \<and> start_of r + words r \<le> a + ?c + (n - ?c)"
        using IH by simp
      have bounds: "\<forall>r \<in> set (requests (issued s ?s2)).
        (\<exists>a' c. r = (if inp then ReadInput a' c else ReadHolding a' c))
        \<and> a \<le> start_of r \<and> 1 \<le> words r \<and> words r \<le> 40
        \<and> start_of r + words r \<le> a + n"
      proof
        fix r assume "r \<in> set (requests (issued s ?s2))"
        then consider "r \<in> set (requests (issued s ?s1))" | "r \<in> set (requests (issued ?s1 ?s2))"
          by (auto simp: iss)
        then show "(\<exists>a' c. r = (if inp then ReadInput a' c else ReadHolding a' c))
          \<and> a \<le> start_of r \<and> 1 \<le> words r \<and> words r \<le> 40
          \<and> start_of r + words r \<le> a + n"
        proof cases
          case 1 with first show ?thesis by blast
        next
          case 2
          with rest have "(\<exists>a' c. r = (if inp then ReadInput a' c else ReadHolding a' c))
            \<and> a + ?c \<le> start_of r \<and> 1 \<le> words r \<and> words r \<le> 40
            \<and> start_of r + words r \<le> a + ?c + (n - ?c)" by blast
          with True show ?thesis by auto
        qed
      qed
      have srt: "sorted (map start_of (requests (issued s ?s2)))"
      proof -
        have a: "sorted (map start_of (requests (issued s ?s1)))"
          using reqs by (rule sorted_const)
        have b: "sorted (map start_of (requests (issued ?s1 ?s2)))" using IH by simp
        have c: "\<forall>x \<in> set (requests (issued s ?s1)). \<forall>y \<in> set (requests (issued ?s1 ?s2)).
                   start_of x \<le> start_of y"
          using first rest True by fastforce
        show ?thesis using a b c by (simp add: iss sorted_append)
      qed
      have cover: "\<forall>r. fst ?rc = Inr r
        \<longrightarrow> (\<Union>req \<in> set (requests (issued s ?s2)). window req) = {a ..< a + n}"
      proof (intro allI impI)
        fix r assume ok: "fst ?rc = Inr r"
        with IH have t: "(\<Union>req \<in> set (requests (issued ?s1 ?s2)). window req)
            = {a + ?c ..< a + ?c + (n - ?c)}" by blast
        have h: "(\<Union>req \<in> set (requests (issued s ?s1)). window req) = {a ..< a + ?c}"
          using reqs1 by (simp add: window_def req)
        have "(\<Union>req \<in> set (requests (issued s ?s2)). window req)
            = {a ..< a + ?c} \<union> {a + ?c ..< a + ?c + (n - ?c)}"
          using t h by (simp add: iss)
        also have "\<dots> = {a ..< a + n}" using True by auto
        finally show "(\<Union>req \<in> set (requests (issued s ?s2)). window req) = {a ..< a + n}" .
      qed
      show ?thesis
        unfolding unfold using ext cfg bounds srt cover by blast
    qed
  qed
qed

text \<open>
  C6. Every read request carries at most 40 words. A request issued by
  \<open>_read_registers\<close> is the one for the given address with the count clamped to 40,
  whatever count was asked for. The requests of \<open>read_parameters(start, n)\<close> are
  holding-register reads of 1 to 40 words inside the window, issued at non-decreasing
  addresses (a retry repeats a chunk, the next chunk starts where the last one ended);
  and when the call returns a result, the windows of its requests cover exactly the
  addresses \<open>start\<close> to \<open>start + n - 1\<close>.
\<close>

theorem read_requests_at_most_40_words:
  "(\<forall>req \<in> set (requests (issued s (snd (read_registers dev s address count inp)))).
      req = read_request inp address count \<and> words req = min count 40 \<and> words req \<le> 40)
   \<and> (\<forall>req \<in> set (requests (issued s (snd (read_parameters dev s start n)))).
        (\<exists>a c. req = ReadHolding a c) \<and> 1 \<le> words req \<and> words req \<le> 40
        \<and> window req \<subseteq> {start ..< start + n})
   \<and> sorted (map start_of (requests (issued s (snd (read_parameters dev s start n)))))
   \<and> (\<forall>result. fst (read_parameters dev s start n) = Inr result
        \<longrightarrow> (\<Union>req \<in> set (requests (issued s (snd (read_parameters dev s start n)))). window req)
            = {start ..< start + n})"
proof -
  have a: "\<forall>req \<in> set (requests (issued s (snd (read_registers dev s address count inp)))).
      req = read_request inp address count \<and> words req = min count 40 \<and> words req \<le> 40"
    using read_registers_requests [of s dev address count inp]
    by (auto simp: read_request_def)
  note inv = read_chunks_inv [of s dev False Map.empty start n]
  have b: "\<forall>req \<in> set (requests (issued s (snd (read_parameters dev s start n)))).
        (\<exists>a c. req = ReadHolding a c) \<and> 1 \<le> words req \<and> words req \<le> 40
        \<and> window req \<subseteq> {start ..< start + n}"
    using inv by (auto simp: read_parameters_def window_def)
  have c: "sorted (map start_of (requests (issued s (snd (read_parameters dev s start n)))))"
    using inv by (simp add: read_parameters_def)
  have d: "\<forall>result. fst (read_parameters dev s start n) = Inr result
        \<longrightarrow> (\<Union>req \<in> set (requests (issued s (snd (read_parameters dev s start n)))). window req)
            = {start ..< start + n}"
    using inv by (simp add: read_parameters_def)
  from a b c d show ?thesis by blast
qed

lemma zero_read:
  "read_registers zero_device
     (connected_transport\<lparr>exchanges := k, trace := tr\<rparr>) a c False
   = (Inr (replicate (nat (min c 40)) 0),
      connected_transport\<lparr>exchanges := Suc k, trace := tr @ [Request (ReadHolding a (min c 40))]\<rparr>)"
  by (simp add: read_registers_def connected_transport_def initial_transport_def
      zero_device_def read_request_def exchange_def emit_def upt_rec)

text \<open>
  Witness for C6: \<open>read_parameters(0, 100)\<close> against a device that answers every
  read issues three chunks of 40, 40 and 20 registers.
\<close>

theorem read_requests_at_most_40_words_witness:
  "requests (issued connected_transport (snd (read_parameters zero_device connected_transport 0 100)))
     = [ReadHolding 0 40, ReadHolding 40 40, ReadHolding 80 20]
   \<and> \<not> isl (fst (read_parameters zero_device connected_transport 0 100))
   \<and> (\<Union>req \<in> set (requests (issued connected_transport
          (snd (read_parameters zero_device connected_transport 0 100)))). window req) = {0 ..< 100}"
proof -
  have s0: "connected_transport = connected_transport\<lparr>exchanges := 0, trace := []\<rparr>"
    by (simp add: connected_transport_def initial_transport_def)
  have run: "read_parameters zero_device connected_transport 0 100
    = (Inr (Map.empty ++ registers_from_values 0 (replicate 40 0)
             ++ registers_from_values 40 (replicate 40 0)
             ++ registers_from_values 80 (replicate 20 0)),
       connected_transport\<lparr>exchanges := 3,
         trace := [Request (ReadHolding 0 40), Request (ReadHolding 40 40),
                   Request (ReadHolding 80 20)]\<rparr>)"
    unfolding read_parameters_def
    apply (subst s0)
    apply (subst read_chunks.simps, simp add: zero_read)
    apply (subst read_chunks.simps, simp add: zero_read)
    apply (subst read_chunks.simps, simp add: zero_read)
    apply (subst read_chunks.simps, simp add: zero_read)
    done
  have t0: "trace connected_transport = []"
    by (simp add: connected_transport_def initial_transport_def)
  have reqs: "requests (issued connected_transport (snd (read_parameters zero_device connected_transport 0 100)))
     = [ReadHolding 0 40, ReadHolding 40 40, ReadHolding 80 20]"
    by (simp add: run issued_def t0)
  have ok: "fst (read_parameters zero_device connected_transport 0 100)
      = Inr (Map.empty ++ registers_from_values 0 (replicate 40 0)
             ++ registers_from_values 40 (replicate 40 0)
             ++ registers_from_values 80 (replicate 20 0))"
    by (simp add: run)
  have "(\<Union>req \<in> set (requests (issued connected_transport
          (snd (read_parameters zero_device connected_transport 0 100)))). window req)
        = {0 ..< 0 + 100}"
    using read_requests_at_most_40_words [of connected_transport zero_device 0 0 True 0 100] ok
    by blast
  then have "(\<Union>req \<in> set (requests (issued connected_transport
          (snd (read_parameters zero_device connected_transport 0 100)))). window req) = {0 ..< 100}"
    by simp
  moreover have "\<not> isl (fst (read_parameters zero_device connected_transport 0 100))"
    by (simp add: run)
  ultimately show ?thesis using reqs by blast
qed

subsection \<open>Write coalescing\<close>








lemma maximal_runs_all_nonempty: "r \<in> set (maximal_runs xs) \<Longrightarrow> r \<noteq> []"
  by (induction xs arbitrary: r rule: maximal_runs.induct) (auto split: if_splits list.splits)













subsection \<open>Adaptive delay between register groups\<close>

lemma segments_nonempty: "segments evs \<noteq> []"
  by (induction evs rule: segments.induct) (auto split: list.splits)

lemma segments_plain: "no_group_sleep evs \<Longrightarrow> segments evs = [evs]"
  by (induction evs rule: segments.induct) (auto simp: no_group_sleep_def)

lemma segments_cut:
  "no_group_sleep xs \<Longrightarrow> segments (xs @ SleepGroup d # ys) = xs # segments ys"
  by (induction xs rule: segments.induct) (auto simp: no_group_sleep_def)

lemma group_sleeps_append [simp]: "group_sleeps (xs @ ys) = group_sleeps xs @ group_sleeps ys"
  by (induction xs rule: group_sleeps.induct) simp_all

lemma group_sleeps_plain: "no_group_sleep evs \<Longrightarrow> group_sleeps evs = []"
  by (induction evs rule: group_sleeps.induct) (auto simp: no_group_sleep_def)

lemma retried_iff: "retried seg \<longleftrightarrow> (\<exists>d. SleepRetry d \<in> set seg)"
proof -
  have "is_retry_sleep e \<longleftrightarrow> (\<exists>d. e = SleepRetry d)" for e by (cases e) auto
  then show ?thesis by (auto simp: retried_def list_ex_iff)
qed

lemma remdups_single: "set xs = {x} \<Longrightarrow> remdups xs = [x]"
proof (induction xs)
  case Nil
  then show ?case by simp
next
  case (Cons y ys)
  then have y: "y = x" by auto
  show ?case
  proof (cases "ys = []")
    case True
    then show ?thesis using y by simp
  next
    case False
    then have "set ys = {x}" using Cons.prems by (cases ys) auto
    then show ?thesis using Cons.IH y by simp
  qed
qed

text \<open>What a successful read of one group leaves in the trace.\<close>

lemma read_input_ok:
  assumes "read_input_registers dev s start count = (Inr vs, s1)"
  shows "extends s s1" and "no_group_sleep (issued s s1)"
    and "remdups (requests (issued s s1)) = [ReadInput start (min count 40)]"
    and "last_read_retried s1 \<longleftrightarrow> retried (issued s s1)"
    and "same_config s s1" and "consecutive_errors s1 = 0"
proof -
  note inv = read_registers_inv [of s dev start count True]
  have s1: "snd (read_registers dev s start count True) = s1"
    and ok: "fst (read_registers dev s start count True) = Inr vs"
    using assms by (simp_all add: read_input_registers_def)
  show "extends s s1" using inv s1 by simp
  show "no_group_sleep (issued s s1)"
    using inv s1 by (auto simp: no_group_sleep_def)
  have "set (requests (issued s s1)) = {read_request True start count}"
    using read_registers_requests_ok [OF ok] s1 by simp
  then show "remdups (requests (issued s s1)) = [ReadInput start (min count 40)]"
    by (simp add: remdups_single read_request_def)
  show "last_read_retried s1 \<longleftrightarrow> retried (issued s s1)"
    using inv s1 ok by (simp add: retried_iff)
  show "same_config s s1" using inv s1 by simp
  show "consecutive_errors s1 = 0" using inv s1 ok by simp
qed

lemma groups_loop_paced:
  assumes "fst (groups_loop dev n (enumerate i gs) regs d s) = Inr res"
    and "i + length gs = n"
  shows "extends s (snd (groups_loop dev n (enumerate i gs) regs d s))
     \<and> group_sleeps (issued s (snd (groups_loop dev n (enumerate i gs) regs d s)))
         = pace d (map retried (butlast (segments
             (issued s (snd (groups_loop dev n (enumerate i gs) regs d s))))))
     \<and> (gs \<noteq> [] \<longrightarrow>
          map (\<lambda>seg. remdups (requests seg))
            (segments (issued s (snd (groups_loop dev n (enumerate i gs) regs d s))))
          = map (\<lambda>g. [group_request g]) gs)
     \<and> (gs \<noteq> [] \<longrightarrow> consecutive_errors (snd (groups_loop dev n (enumerate i gs) regs d s)) = 0)
     \<and> same_config s (snd (groups_loop dev n (enumerate i gs) regs d s))"
  using assms
proof (induction gs arbitrary: i regs d s)
  case Nil
  then show ?case by (simp add: extends_refl issued_refl same_config_def)
next
  case (Cons g gs)
  obtain group_name start count where g: "g = (group_name, start, count)" by (cases g) auto
  obtain r s1 where rd: "read_input_registers dev s start count = (r, s1)" by force
  have en: "enumerate i (g # gs) = (i, group_name, start, count) # enumerate (Suc i) gs"
    by (simp add: g)
  show ?case
  proof (cases r)
    case (Inl e)
    then show ?thesis using Cons.prems(1) rd unfolding en by simp
  next
    case (Inr vs)
    with rd have rd': "read_input_registers dev s start count = (Inr vs, s1)" by simp
    note ok = read_input_ok [OF rd']
    define d' where "d' = (if last_read_retried s1 then min (d * 2) 1 else d)"
    define s2 where "s2 = (if last_read_retried s1
                     then log_msg Debug ''Increasing inter-group delay'' s1 else s1)"
    define s3 where "s3 = (if int i < int n - 1 then emit (SleepGroup d') s2 else s2)"
    let ?rest = "groups_loop dev n (enumerate (Suc i) gs) (regs ++ registers_from_values start vs) d' s3"
    have step: "groups_loop dev n (enumerate i (g # gs)) regs d s = ?rest"
      unfolding en by (simp add: rd' d'_def s2_def s3_def Let_def)
    have ok': "fst ?rest = Inr res" using Cons.prems(1) step by simp
    have len: "Suc i + length gs = n" using Cons.prems(2) by simp
    note IH = Cons.IH [OF ok' len]
    have i12: "issued s s2 = issued s s1" "extends s s2" "same_config s s2"
      "consecutive_errors s2 = 0"
      using ok by (auto simp: s2_def same_config_def)
    have dd: "d' = (if retried (issued s s1) then min (d * 2) 1 else d)"
      using ok(4) by (simp add: d'_def)
    show ?thesis
    proof (cases "gs = []")
      case True
      then have "\<not> int i < int n - 1" using Cons.prems(2) by simp
      then have s3: "s3 = s2" by (simp add: s3_def)
      have fin: "snd ?rest = s2" using True s3 by simp
      show ?thesis
        unfolding step fin using i12 ok True
        by (simp add: segments_plain group_sleeps_plain group_request_def g)
    next
      case False
      then have lt: "int i < int n - 1" using Cons.prems(2) by (cases gs) auto
      then have s3: "s3 = emit (SleepGroup d') s2" by (simp add: s3_def)
      have e3: "extends s s3"
        using i12 by (auto simp: s3 extends_def issued_def)
      have i3: "issued s s3 = issued s s1 @ [SleepGroup d']"
        using i12(1,2) by (simp add: s3 extends_def issued_def)
      let ?s' = "snd ?rest"
      have ext: "extends s ?s'" using e3 IH extends_trans by blast
      have iss: "issued s ?s' = issued s s1 @ SleepGroup d' # issued s3 ?s'"
        using issued_trans [OF e3, of ?s'] IH i3 by simp
      have seg: "segments (issued s ?s') = issued s s1 # segments (issued s3 ?s')"
        unfolding iss using ok(2) by (rule segments_cut)
      have bl: "butlast (segments (issued s ?s')) = issued s s1 # butlast (segments (issued s3 ?s'))"
        by (simp add: seg segments_nonempty)
      have sl: "group_sleeps (issued s ?s') = d' # group_sleeps (issued s3 ?s')"
        by (simp add: iss group_sleeps_plain [OF ok(2)])
      have cfg: "same_config s ?s'"
        using IH i12(3) by (simp add: same_config_def s3)
      have pc: "pace d (retried (issued s s1) # fs) = d' # pace d' fs" for fs
        by (simp add: dd)
      show ?thesis
        unfolding step using ext IH False ok(3) cfg
        by (simp add: sl bl seg pc segments_nonempty group_request_def g del: pace.simps)
    qed
  qed
qed


lemma segments_length: "length (segments evs) = Suc (length (group_sleeps evs))"
  by (induction evs rule: segments.induct) (auto split: list.splits simp: segments_nonempty)

lemma reconnect_if_needed_delay:
  "inter_register_delay (snd (reconnect_if_needed dev s)) = inter_register_delay s"
  by (simp add: reconnect_if_needed_def reconnect_def connect_def disconnect_def exchange_def
      split: prod.splits reply.splits sum.splits)

text \<open>
  C7. In a batch of group reads that succeeds, the sleeps between groups cut the trace
  into one segment for each group, in the declared order, each holding the requests of
  that group alone: there is a sleep between successive groups and none after the last.
  The delays are those of \<open>pace\<close>, started at \<open>inter_register_delay\<close>: after a
  group whose read needed a retry the delay is doubled, capped at one second, and the
  new value is used from the sleep that follows that group on; after a group read at the
  first attempt it is unchanged.
\<close>

theorem inter_group_delay_adapts:
  assumes "fst (read_register_groups dev s names) = Inr regs"
  shows "group_sleeps (issued (snd (reconnect_if_needed dev s))
                         (snd (read_register_groups dev s names)))
           = pace (inter_register_delay s)
               (map retried (butlast (segments
                  (issued (snd (reconnect_if_needed dev s))
                     (snd (read_register_groups dev s names))))))
       \<and> length (group_sleeps (issued (snd (reconnect_if_needed dev s))
                         (snd (read_register_groups dev s names))))
           = length (select_groups names) - 1
       \<and> (select_groups names \<noteq> [] \<longrightarrow>
            map (\<lambda>seg. remdups (requests seg))
              (segments (issued (snd (reconnect_if_needed dev s))
                           (snd (read_register_groups dev s names))))
            = map (\<lambda>g. [group_request g]) (select_groups names))"
proof -
  let ?gs = "select_groups names"
  obtain r s0 where rc: "reconnect_if_needed dev s = (r, s0)" by force
  have r: "r = Inr ()"
    using assms rc by (cases r) (simp_all add: read_register_groups_def Let_def)
  let ?loop = "groups_loop dev (length ?gs) (enumerate 0 ?gs) Map.empty (inter_register_delay s0) s0"
  have unfold: "read_register_groups dev s names = ?loop"
    using rc r by (simp add: read_register_groups_def Let_def)
  have ok: "fst ?loop = Inr regs" using assms unfold by simp
  have d0: "inter_register_delay s0 = inter_register_delay s"
    using reconnect_if_needed_delay [of dev s] rc by simp
  have s0: "snd (reconnect_if_needed dev s) = s0" using rc by simp
  note paced = groups_loop_paced [OF ok, simplified]
  let ?evs = "issued s0 (snd ?loop)"
  have 1: "group_sleeps ?evs = pace (inter_register_delay s) (map retried (butlast (segments ?evs)))"
    using paced d0 by simp
  have 3: "?gs \<noteq> [] \<longrightarrow> map (\<lambda>seg. remdups (requests seg)) (segments ?evs)
            = map (\<lambda>g. [group_request g]) ?gs"
    using paced by simp
  have 2: "length (group_sleeps ?evs) = length ?gs - 1"
  proof (cases "?gs = []")
    case True
    then have "snd ?loop = s0" by simp
    then show ?thesis using True by (simp add: issued_refl)
  next
    case False
    with 3 have "length (segments ?evs) = length ?gs"
      by (metis length_map)
    then show ?thesis by (simp add: segments_length)
  qed
  show ?thesis
    unfolding unfold s0 using 1 2 3 by blast
qed

lemma flaky_batch:
  "read_register_groups flaky_device connected_transport
     (Some [''power_energy'', ''status_energy'', ''bms_data''])
   = (Inr (Map.empty ++ registers_from_values 0 [7] ++ registers_from_values 32 [7]
            ++ registers_from_values 80 [7]),
      connected_transport\<lparr>exchanges := 4, last_read_retried := False,
        trace := [Request (ReadInput 0 32), SleepRetry (1 / 2), Request (ReadInput 0 32),
                  SleepGroup (1 / 10), Request (ReadInput 32 32), SleepGroup (1 / 10),
                  Request (ReadInput 80 33)],
        logged := [(Debug, ''Retry reading registers''),
                   (Debug, ''Increasing inter-group delay'')]\<rparr>)"
  by (simp add: read_register_groups_def select_groups_def INPUT_REGISTER_GROUPS_def
      reconnect_if_needed_def max_consecutive_errors_def connected_transport_def
      initial_transport_def read_input_registers_def read_registers_def read_request_def
      exchange_def flaky_device_def emit_def log_msg_def upt_rec Let_def)

text \<open>
  Witness for C7. Three groups against a device whose first exchange times out: the first group needs a
  retry, so both sleeps between groups last 0.1 s instead of 0.05 s.
\<close>

theorem inter_group_delay_adapts_witness:
  "\<not> isl (fst (read_register_groups flaky_device connected_transport
            (Some [''power_energy'', ''status_energy'', ''bms_data''])))
   \<and> issued (snd (reconnect_if_needed flaky_device connected_transport))
        (snd (read_register_groups flaky_device connected_transport
               (Some [''power_energy'', ''status_energy'', ''bms_data''])))
      = [Request (ReadInput 0 32), SleepRetry (1 / 2), Request (ReadInput 0 32),
         SleepGroup (1 / 10), Request (ReadInput 32 32), SleepGroup (1 / 10),
         Request (ReadInput 80 33)]
   \<and> group_sleeps (issued (snd (reconnect_if_needed flaky_device connected_transport))
        (snd (read_register_groups flaky_device connected_transport
               (Some [''power_energy'', ''status_energy'', ''bms_data'']))))
      = [1 / 10, 1 / 10]"
proof -
  have s0: "snd (reconnect_if_needed flaky_device connected_transport) = connected_transport"
    by (simp add: reconnect_if_needed_def max_consecutive_errors_def connected_transport_def
        initial_transport_def)
  have t0: "trace connected_transport = []"
    "inter_register_delay connected_transport = 1 / 20"
    by (simp_all add: connected_transport_def initial_transport_def)
  have ok: "fst (read_register_groups flaky_device connected_transport
            (Some [''power_energy'', ''status_energy'', ''bms_data'']))
      = Inr (Map.empty ++ registers_from_values 0 [7] ++ registers_from_values 32 [7]
            ++ registers_from_values 80 [7])"
    by (simp add: flaky_batch)
  have evs: "issued connected_transport
        (snd (read_register_groups flaky_device connected_transport
               (Some [''power_energy'', ''status_energy'', ''bms_data''])))
      = [Request (ReadInput 0 32), SleepRetry (1 / 2), Request (ReadInput 0 32),
         SleepGroup (1 / 10), Request (ReadInput 32 32), SleepGroup (1 / 10),
         Request (ReadInput 80 33)]"
    by (simp add: flaky_batch issued_def t0)
  show ?thesis
    using inter_group_delay_adapts [OF ok] ok
    by (simp add: s0 evs t0 retried_def)
qed

subsection \<open>The energy read and its supplementary group\<close>

lemma registers_from_values_apply:
  "registers_from_values start vs a =
     (if start \<le> a \<and> a < start + int (length vs) then Some (vs ! nat (a - start)) else None)"
proof (induction vs arbitrary: start)
  case Nil
  then show ?case by (simp add: registers_from_values_def)
next
  case (Cons v vs)
  have upt: "[0..<Suc (length vs)] = 0 # map Suc [0..<length vs]"
    by (simp add: upt_conv_Cons map_Suc_upt del: upt_Suc)
  have shift: "registers_from_values start (v # vs)
      = (registers_from_values (start + 1) vs)(start \<mapsto> v)"
    unfolding registers_from_values_def
    by (simp add: upt comp_def add.assoc del: upt_Suc)
  show ?case
  proof (cases "a = start")
    case True
    then show ?thesis by (simp add: shift)
  next
    case False
    have "nat (a - start) = Suc (nat (a - (start + 1)))" if "start < a"
      using that by simp
    then show ?thesis using False by (auto simp: shift Cons.IH)
  qed
qed


















subsection \<open>The battery read\<close>

lemma reconnect_if_needed_trace:
  "extends s (snd (reconnect_if_needed dev s))
   \<and> set (requests (issued s (snd (reconnect_if_needed dev s)))) \<subseteq> {ConnectReq}"
proof -
  have "trace (snd (reconnect_if_needed dev s)) = trace s
      \<or> trace (snd (reconnect_if_needed dev s)) = trace s @ [Disconnected, Request ConnectReq]"
    by (simp add: reconnect_if_needed_def reconnect_def connect_def disconnect_def exchange_def
        split: prod.splits reply.splits sum.splits)
  then show ?thesis
  proof
    assume "trace (snd (reconnect_if_needed dev s)) = trace s"
    then have "trace (snd (reconnect_if_needed dev s)) = trace s @ []" by simp
    then show ?thesis by (metis extendsI issuedI requests.simps(1) empty_set empty_subsetI)
  next
    assume a: "trace (snd (reconnect_if_needed dev s)) = trace s @ [Disconnected, Request ConnectReq]"
    show ?thesis using extendsI [OF a] issuedI [OF a] by simp
  qed
qed

lemma read_runtime_window_trace:
  "extends s (snd (read_runtime_window dev s))
   \<and> set (requests (issued s (snd (read_runtime_window dev s))))
        \<subseteq> {ReadInput 0 40, ReadInput 64 40}"
proof -
  obtain r1 s1 where a: "read_input_registers dev s 0 64 = (r1, s1)" by force
  obtain r2 s2 where b: "read_input_registers dev s1 64 64 = (r2, s2)" by force
  have e1: "extends s s1" and q1: "set (requests (issued s s1)) \<subseteq> {ReadInput 0 40}"
    using read_registers_inv [of s dev 0 64 True] read_registers_requests [of s dev 0 64 True] a
    by (simp_all add: read_input_registers_def read_request_def)
  have e2: "extends s1 s2" and q2: "set (requests (issued s1 s2)) \<subseteq> {ReadInput 64 40}"
    using read_registers_inv [of s1 dev 64 64 True] read_registers_requests [of s1 dev 64 64 True] b
    by (simp_all add: read_input_registers_def read_request_def)
  have e12: "extends s s2" using e1 e2 by (rule extends_trans)
  have i12: "issued s s2 = issued s s1 @ issued s1 s2" using e1 e2 by (rule issued_trans)
  show ?thesis
  proof (cases r1)
    case (Inl e)
    then show ?thesis using a e1 q1 by (auto simp: read_runtime_window_def)
  next
    case (Inr vs)
    then show ?thesis using a b e12 i12 q1 q2
      by (cases r2) (auto simp: read_runtime_window_def)
  qed
qed


lemma read_battery_no_count:
  assumes "reconnect_if_needed dev s = (Inr (), s0)"
    and "read_runtime_window dev s0 = (all_registers, s1)"
    and "\<not> inc \<or> (case all_registers 96 of None \<Rightarrow> True | Some c \<Rightarrow> c \<le> 0)"
  shows "fst (read_battery rm dev s inc)
           = Inr (BatteryBankData_from_modbus_registers all_registers rm None)
       \<and> trace (snd (read_battery rm dev s inc)) = trace s1"
  using assms
  by (auto simp: read_battery_def Let_def split: prod.splits option.splits)


lemma zero_read_input:
  "read_input_registers zero_device
     (connected_transport\<lparr>exchanges := k, trace := tr\<rparr>) a c
   = (Inr (replicate (nat (min c 40)) 0),
      connected_transport\<lparr>exchanges := Suc k, trace := tr @ [Request (ReadInput a (min c 40))]\<rparr>)"
  by (simp add: read_input_registers_def read_registers_def connected_transport_def
      initial_transport_def zero_device_def read_request_def exchange_def emit_def upt_rec)

lemma connected_transport_fresh:
  "connected_transport = connected_transport\<lparr>exchanges := 0, trace := []\<rparr>"
  "trace connected_transport = []" "consecutive_errors connected_transport = 0"
  "logged connected_transport = []"
  by (simp_all add: connected_transport_def initial_transport_def)

lemma no_reconnect_fresh: "reconnect_if_needed dev connected_transport = (Inr (), connected_transport)"
  by (simp add: reconnect_if_needed_def max_consecutive_errors_def connected_transport_fresh(3))

lemma zero_window:
  "read_runtime_window zero_device connected_transport
   = (Map.empty ++ registers_from_values 0 (replicate 40 0)
        ++ registers_from_values 64 (replicate 40 0),
      connected_transport\<lparr>exchanges := 2,
         trace := [Request (ReadInput 0 40), Request (ReadInput 64 40)]\<rparr>)"
  unfolding read_runtime_window_def
  apply (subst connected_transport_fresh(1))
  apply (simp add: zero_read_input)
  done

lemma count_read_input:
  "read_input_registers battery_count_device
     (connected_transport\<lparr>exchanges := k, trace := tr\<rparr>) a c
   = (Inr (if a = 64 then replicate 32 0 @ [1] @ replicate 7 0
           else replicate (nat (min c 40)) 0),
      connected_transport\<lparr>exchanges := Suc k, trace := tr @ [Request (ReadInput a (min c 40))]\<rparr>)"
  by (simp add: read_input_registers_def read_registers_def connected_transport_def
      initial_transport_def battery_count_device_def read_request_def exchange_def emit_def
      upt_rec)

lemma count_window:
  "read_runtime_window battery_count_device connected_transport
   = (Map.empty ++ registers_from_values 0 (replicate 40 0)
        ++ registers_from_values 64 (replicate 32 0 @ [1] @ replicate 7 0),
      connected_transport\<lparr>exchanges := 2,
         trace := [Request (ReadInput 0 40), Request (ReadInput 64 40)]\<rparr>)"
  unfolding read_runtime_window_def
  apply (subst connected_transport_fresh(1))
  apply (simp add: count_read_input)
  done

lemma count_individual:
  "read_individual pv_series_map battery_count_device
     (connected_transport\<lparr>exchanges := 2,
         trace := [Request (ReadInput 0 40), Request (ReadInput 64 40)]\<rparr>) 1
   = (Some (Map.empty ++ registers_from_values 5000 (replicate 30 0)),
      log_msg Debug ''Read individual battery data''
        (connected_transport\<lparr>exchanges := 3,
           trace := [Request (ReadInput 0 40), Request (ReadInput 64 40),
                     Request (ReadInput 5000 30)]\<rparr>))"
  unfolding read_individual_def
  apply (simp add: pv_series_map_def INDIVIDUAL_BATTERY_BASE_ADDRESS_def)
  apply (subst read_chunks.simps, simp add: count_read_input [unfolded read_input_registers_def])
  apply (subst read_chunks.simps, simp)
  done


text \<open>
  C4, as the code has it. When the bank-voltage register was read and is below the
  threshold, \<open>read_battery\<close> returns \<open>None\<close> and raises nothing. What keeps the
  individual-battery range from being read is not the bank voltage but the battery count:
  when \<open>include_individual\<close> is off, or register 96 is missing or not positive, every
  request of the call is below address 5000.
\<close>

theorem read_battery_below_threshold:
  assumes "reconnect_if_needed dev s = (Inr (), s0)"
    and "read_runtime_window dev s0 = (all_registers, s1)"
    and "all_registers (battery_voltage_register rm) = Some raw"
    and "raw < no_battery_threshold rm"
  shows "fst (read_battery rm dev s include_individual) = Inr None
     \<and> (\<not> include_individual \<or> (case all_registers 96 of None \<Rightarrow> True | Some c \<Rightarrow> c \<le> 0)
          \<longrightarrow> (\<forall>req \<in> set (requests (issued s (snd (read_battery rm dev s include_individual)))).
                 start_of req < INDIVIDUAL_BATTERY_BASE_ADDRESS))"
proof (intro conjI impI)
  have dec: "BatteryBankData_from_modbus_registers all_registers rm ind = None" for ind
    using assms(3,4) by (simp add: BatteryBankData_from_modbus_registers_def)
  show "fst (read_battery rm dev s include_individual) = Inr None"
    using assms(1,2) by (simp add: read_battery_def Let_def dec split: prod.splits)
next
  assume guard: "\<not> include_individual
      \<or> (case all_registers 96 of None \<Rightarrow> True | Some c \<Rightarrow> c \<le> 0)"
  let ?s' = "snd (read_battery rm dev s include_individual)"
  have tr: "trace ?s' = trace s1"
    using read_battery_no_count [OF assms(1,2) guard] by simp
  have e0: "extends s s0" and q0: "set (requests (issued s s0)) \<subseteq> {ConnectReq}"
    using reconnect_if_needed_trace [of s dev] assms(1) by simp_all
  have e1: "extends s0 s1"
    and q1: "set (requests (issued s0 s1)) \<subseteq> {ReadInput 0 40, ReadInput 64 40}"
    using read_runtime_window_trace [of s0 dev] assms(2) by simp_all
  have "issued s ?s' = issued s s1" by (simp add: issued_def tr)
  also have "\<dots> = issued s s0 @ issued s0 s1" using e0 e1 by (rule issued_trans)
  finally have "set (requests (issued s ?s')) \<subseteq> {ConnectReq, ReadInput 0 40, ReadInput 64 40}"
    using q0 q1 by auto
  then show "\<forall>req \<in> set (requests (issued s ?s')). start_of req < INDIVIDUAL_BATTERY_BASE_ADDRESS"
    by (auto simp: INDIVIDUAL_BATTERY_BASE_ADDRESS_def)
qed

text \<open>
  Witness for C4, the scenario of the spec, a device whose registers all read 0: the result is
  \<open>None\<close> and the two reads of the runtime window are the only requests.
\<close>

theorem read_battery_below_threshold_witness:
  "reconnect_if_needed zero_device connected_transport = (Inr (), connected_transport)
   \<and> fst (read_runtime_window zero_device connected_transport)
        (battery_voltage_register pv_series_map) = Some 0
   \<and> 0 < no_battery_threshold pv_series_map
   \<and> fst (read_runtime_window zero_device connected_transport) 96 = Some 0
   \<and> fst (read_battery pv_series_map zero_device connected_transport True) = Inr None
   \<and> requests (issued connected_transport
        (snd (read_battery pv_series_map zero_device connected_transport True)))
      = [ReadInput 0 40, ReadInput 64 40]"
proof -
  let ?regs = "Map.empty ++ registers_from_values 0 (replicate 40 0)
        ++ registers_from_values 64 (replicate 40 0)"
  have v: "?regs (battery_voltage_register pv_series_map) = Some 0"
    by (simp add: pv_series_map_def map_add_def registers_from_values_apply)
  have c: "?regs 96 = Some 0"
    by (simp add: map_add_def registers_from_values_apply)
  have t: "(0::int) < no_battery_threshold pv_series_map" by (simp add: pv_series_map_def)
  note r = read_battery_below_threshold [OF no_reconnect_fresh zero_window v t, of True]
  have res: "fst (read_battery pv_series_map zero_device connected_transport True) = Inr None"
    using r by simp
  have tr: "trace (snd (read_battery pv_series_map zero_device connected_transport True))
      = [Request (ReadInput 0 40), Request (ReadInput 64 40)]"
    using read_battery_no_count [OF no_reconnect_fresh zero_window, of True pv_series_map] c
    by simp
  show ?thesis
    using res v c t by (simp add: no_reconnect_fresh zero_window issued_def tr connected_transport_fresh(2))
qed

text \<open>
  C4 as stated fails: with a bank voltage of 0 and a battery count of 1 in register 96,
  the result is \<open>None\<close> and yet 30 registers are read at address 5000.
\<close>

theorem individual_range_read_despite_low_voltage:
  "fst (read_runtime_window battery_count_device connected_transport)
        (battery_voltage_register pv_series_map) = Some 0
   \<and> fst (read_battery pv_series_map battery_count_device connected_transport True) = Inr None
   \<and> requests (issued connected_transport
        (snd (read_battery pv_series_map battery_count_device connected_transport True)))
      = [ReadInput 0 40, ReadInput 64 40, ReadInput 5000 30]"
proof -
  let ?regs = "Map.empty ++ registers_from_values 0 (replicate 40 0)
        ++ registers_from_values 64 (replicate 32 0 @ [1] @ replicate 7 0)"
  have v: "?regs (battery_voltage_register pv_series_map) = Some 0"
    by (simp add: pv_series_map_def map_add_def registers_from_values_apply)
  have c: "?regs 96 = Some 1"
    by (simp add: map_add_def registers_from_values_apply nth_append)
  have dec: "BatteryBankData_from_modbus_registers ?regs pv_series_map ind = None" for ind
    using v by (simp add: BatteryBankData_from_modbus_registers_def pv_series_map_def)
  have run: "read_battery pv_series_map battery_count_device connected_transport True
    = (Inr None, log_msg Debug ''Battery voltage below threshold''
         (log_msg Debug ''Read individual battery data''
        (connected_transport\<lparr>exchanges := 3,
           trace := [Request (ReadInput 0 40), Request (ReadInput 64 40),
                     Request (ReadInput 5000 30)]\<rparr>)))"
    using c [simplified] dec [simplified]
    by (simp add: read_battery_def no_reconnect_fresh count_window count_individual)
  show ?thesis
    using v by (simp add: run count_window issued_def connected_transport_fresh(2))
qed



subsection \<open>Identity reads\<close>

lemma read_holding_requests:
  "set (requests (issued s (snd (read_holding_registers dev s a c)))) \<subseteq> {ReadHolding a (min c 40)}"
  using read_registers_requests [of s dev a c False]
  by (simp add: read_holding_registers_def read_request_def)

lemma read_input_requests:
  "set (requests (issued s (snd (read_input_registers dev s a c)))) \<subseteq> {ReadInput a (min c 40)}"
  using read_registers_requests [of s dev a c True]
  by (simp add: read_input_registers_def read_request_def)

lemma read_device_type_snd:
  "snd (read_device_type dev s) = snd (read_holding_registers dev s 19 1)"
  by (simp add: read_device_type_def read_device_type_async_def
      split: prod.splits sum.splits list.splits)

lemma read_firmware_version_snd:
  "snd (read_firmware_version dev s) = snd (read_holding_registers dev s 7 4)"
  by (simp add: read_firmware_version_def read_firmware_version_async_def
      split: prod.splits sum.splits)

lemma read_serial_number_snd:
  "snd (read_serial_number dev s n) = snd (read_input_registers dev s 115 n)"
  by (simp add: read_serial_number_def read_serial_number_async_def
      split: prod.splits sum.splits)

text \<open>
  C2, as the code has it. The device-type code is read from holding register 19 and the
  firmware code from the four holding registers 7 to 10 (FC3). The serial number is read
  from the input registers (FC4), in one request that starts at register 115:
  \<open>read_serial_number\<close> hands \<open>_read_input_registers\<close> to its reader. Each word
  read is decoded as two ASCII bytes.
\<close>

theorem identity_reads_register_spaces:
  "set (requests (issued s (snd (read_device_type dev s)))) \<subseteq> {ReadHolding 19 1}
   \<and> set (requests (issued s (snd (read_firmware_version dev s)))) \<subseteq> {ReadHolding 7 4}
   \<and> set (requests (issued s (snd (read_serial_number dev s serial_words))))
        \<subseteq> {ReadInput 115 (min serial_words 40)}
   \<and> (\<forall>vs. fst (read_input_registers dev s 115 serial_words) = Inr vs
         \<longrightarrow> fst (read_serial_number dev s serial_words) = Inr (ascii_of_words vs))
   \<and> (\<forall>vs. fst (read_holding_registers dev s 7 4) = Inr vs
         \<longrightarrow> fst (read_firmware_version dev s) = Inr (trim (ascii_of_words vs)))
   \<and> (\<forall>v vs. fst (read_holding_registers dev s 19 1) = Inr (v # vs)
         \<longrightarrow> fst (read_device_type dev s) = Inr v)"
proof (intro conjI allI impI)
  show "set (requests (issued s (snd (read_device_type dev s)))) \<subseteq> {ReadHolding 19 1}"
    using read_holding_requests [of s dev 19 1] by (simp add: read_device_type_snd)
  show "set (requests (issued s (snd (read_firmware_version dev s)))) \<subseteq> {ReadHolding 7 4}"
    using read_holding_requests [of s dev 7 4] by (simp add: read_firmware_version_snd)
  show "set (requests (issued s (snd (read_serial_number dev s serial_words))))
        \<subseteq> {ReadInput 115 (min serial_words 40)}"
    using read_input_requests [of s dev 115 serial_words] by (simp add: read_serial_number_snd)
next
  fix vs assume "fst (read_input_registers dev s 115 serial_words) = Inr vs"
  then show "fst (read_serial_number dev s serial_words) = Inr (ascii_of_words vs)"
    by (simp add: read_serial_number_def read_serial_number_async_def case_prod_beta)
next
  fix vs assume "fst (read_holding_registers dev s 7 4) = Inr vs"
  then show "fst (read_firmware_version dev s) = Inr (trim (ascii_of_words vs))"
    by (simp add: read_firmware_version_def read_firmware_version_async_def case_prod_beta)
next
  fix v vs assume "fst (read_holding_registers dev s 19 1) = Inr (v # vs)"
  then show "fst (read_device_type dev s) = Inr v"
    by (simp add: read_device_type_def read_device_type_async_def case_prod_beta)
qed

lemma identity_read_input:
  "read_input_registers identity_device connected_transport 115 4
   = (Inr [17731, 12849, 13363, 13877],
      connected_transport\<lparr>exchanges := 1, trace := [Request (ReadInput 115 4)]\<rparr>)"
  by (simp add: read_input_registers_def read_registers_def connected_transport_def
      initial_transport_def identity_device_def read_request_def exchange_def emit_def upt_rec)

lemma identity_read_holding:
  "fst (read_holding_registers identity_device connected_transport 7 4)
     = Inr [16710, 16961, 13618, 13618]"
  "fst (read_holding_registers identity_device connected_transport 19 1) = Inr [2092]"
  by (simp_all add: read_holding_registers_def read_registers_def connected_transport_def
      initial_transport_def identity_device_def read_request_def exchange_def emit_def upt_rec)

lemma serial_example: "ascii_of_words [17731, 12849, 13363, 13877] = ''CE123456''"
  by code_simp

lemma firmware_example: "trim (ascii_of_words [16710, 16961, 13618, 13618]) = ''FAAB2525''"
  by code_simp

text \<open>Witness for C2: the three reads against a device that has an identity.\<close>

theorem identity_reads_register_spaces_witness:
  "fst (read_input_registers identity_device connected_transport 115 4)
     = Inr [17731, 12849, 13363, 13877]
   \<and> fst (read_holding_registers identity_device connected_transport 7 4)
     = Inr [16710, 16961, 13618, 13618]
   \<and> fst (read_holding_registers identity_device connected_transport 19 1) = Inr [2092]
   \<and> fst (read_serial_number identity_device connected_transport 4) = Inr ''CE123456''
   \<and> fst (read_firmware_version identity_device connected_transport) = Inr ''FAAB2525''
   \<and> fst (read_device_type identity_device connected_transport) = Inr 2092"
  using identity_reads_register_spaces [of connected_transport identity_device 4]
  by (simp add: identity_read_input identity_read_holding serial_example firmware_example)

text \<open>
  C2 as stated fails: the request that reads the serial number is an input-register
  read, not a holding-register read.
\<close>

theorem serial_number_read_from_input_registers:
  "requests (issued connected_transport (snd (read_serial_number identity_device connected_transport 4)))
     = [ReadInput 115 4]
   \<and> ReadHolding 115 4 \<notin> set (requests (issued connected_transport
         (snd (read_serial_number identity_device connected_transport 4))))"
  by (simp add: read_serial_number_snd identity_read_input issued_def
      connected_transport_fresh(2))

subsection \<open>CIDR ranges\<close>

lemma digit_char_props:
  assumes "d < 10"
  shows "is_digit (digit_char d)" and "digit_value (digit_char d) = d"
proof -
  from assms have "d = 0 \<or> d = 1 \<or> d = 2 \<or> d = 3 \<or> d = 4 \<or> d = 5 \<or> d = 6 \<or> d = 7
      \<or> d = 8 \<or> d = 9" by arith
  then show "is_digit (digit_char d)" and "digit_value (digit_char d) = d"
    by (auto simp: digit_char_def is_digit_def digit_value_def)
qed

lemma show_decimal_digits: "show_decimal n \<noteq> [] \<and> list_all is_digit (show_decimal n)"
proof (induction n rule: show_decimal.induct)
  case (1 n)
  show ?case
  proof (cases "n < 10")
    case True
    then show ?thesis by (simp add: show_decimal.simps [of n] digit_char_props)
  next
    case False
    then show ?thesis using "1.IH" by (simp add: show_decimal.simps [of n] digit_char_props)
  qed
qed

lemma show_decimal_value:
  "foldl (\<lambda>n c. 10 * n + digit_value c) 0 (show_decimal n) = n"
proof (induction n rule: show_decimal.induct)
  case (1 n)
  show ?case
  proof (cases "n < 10")
    case True
    then show ?thesis by (simp add: show_decimal.simps [of n] digit_char_props)
  next
    case False
    then show ?thesis using "1.IH" by (simp add: show_decimal.simps [of n] digit_char_props)
  qed
qed

lemma parse_show_decimal: "parse_decimal (show_decimal n) = Some n"
  by (simp add: parse_decimal_def show_decimal_digits show_decimal_value)

lemma is_digit_not_dot: "is_digit c \<Longrightarrow> c \<noteq> CHR ''.''"
  by (auto simp: is_digit_def)

lemma show_decimal_no_dot: "CHR ''.'' \<notin> set (show_decimal n)"
  using show_decimal_digits [of n] is_digit_not_dot by (auto simp: list_all_iff)

lemma split_on_nonempty: "split_on sep str \<noteq> []"
  by (induction str) (auto split: list.splits)

lemma split_on_plain: "sep \<notin> set w \<Longrightarrow> split_on sep w = [w]"
  by (induction w) auto

lemma split_on_cut: "sep \<notin> set w \<Longrightarrow> split_on sep (w @ sep # rest) = w # split_on sep rest"
  by (induction w) (auto simp: split_on_nonempty split: list.splits)

lemma octets_compose:
  fixes n :: nat
  shows "((n div 16777216 * 256 + n div 65536 mod 256) * 256 + n div 256 mod 256) * 256
           + n mod 256 = n"
proof -
  have a: "n div 65536 = n div 256 div 256" by (simp add: div_mult2_eq [symmetric])
  have b: "n div 16777216 = n div 65536 div 256" by (simp add: div_mult2_eq [symmetric])
  have "n div 65536 div 256 * 256 + n div 65536 mod 256 = n div 65536"
    by (rule div_mult_mod_eq)
  moreover have "n div 256 div 256 * 256 + n div 256 mod 256 = n div 256"
    by (rule div_mult_mod_eq)
  moreover have "n div 256 * 256 + n mod 256 = n"
    by (rule div_mult_mod_eq)
  ultimately show ?thesis by (simp only: a [symmetric] b)
qed

lemma octet_bound: "(k::nat) mod 256 \<le> 255"
proof -
  have "k mod 256 < 256" by simp
  then show ?thesis by linarith
qed

lemma parse_format_ipv4:
  assumes "n < 4294967296"
  shows "parse_ipv4 (format_ipv4 n) = Some n"
proof -
  have sp: "split_on CHR ''.'' (format_ipv4 n)
      = [show_decimal (n div 16777216), show_decimal (n div 65536 mod 256),
         show_decimal (n div 256 mod 256), show_decimal (n mod 256)]"
    unfolding format_ipv4_def
    by (simp add: split_on_cut split_on_plain show_decimal_no_dot)
  have top: "n div 16777216 \<le> 255" using assms by simp
  have "parse_ipv4 (format_ipv4 n)
      = Some (((n div 16777216 * 256 + n div 65536 mod 256) * 256 + n div 256 mod 256) * 256
           + n mod 256)"
    unfolding parse_ipv4_def sp
    by (simp add: parse_show_decimal top octet_bound del: mult_Suc_right)
  then show ?thesis by (simp only: octets_compose)
qed

lemma format_ipv4_inj:
  "m < 4294967296 \<Longrightarrow> n < 4294967296 \<Longrightarrow> format_ipv4 m = format_ipv4 n \<Longrightarrow> m = n"
  by (metis option.inject parse_format_ipv4)


lemma parse_ipv4_bound:
  assumes "parse_ipv4 str = Some n"
  shows "n < 4294967296"
proof -
  from assms obtain a b c d :: nat where
    "a \<le> 255" "b \<le> 255" "c \<le> 255" "d \<le> 255" "n = ((a * 256 + b) * 256 + c) * 256 + d"
    unfolding parse_ipv4_def
    by (auto split: list.splits option.splits if_splits)
  then show ?thesis by simp
qed

lemma parse_cidr_bound:
  assumes "parse_cidr str = Some (addr, prefix)"
  shows "addr < 4294967296 \<and> prefix \<le> 32"
  using assms unfolding parse_cidr_def
  by (auto split: list.splits option.splits if_splits dest: parse_ipv4_bound)

lemma network_top:
  assumes "addr < 4294967296" and "prefix \<le> 32"
  shows "network_address addr prefix + 2 ^ (32 - prefix) \<le> 4294967296"
proof -
  let ?k = "32 - prefix"
  have na: "network_address addr prefix = addr div 2 ^ ?k * 2 ^ ?k"
    by (simp add: network_address_def minus_mod_eq_div_mult)
  have "(4294967296::nat) = 2 ^ prefix * 2 ^ ?k"
    using assms(2) by (simp add: power_add [symmetric])
  then have p: "(4294967296::nat) = 2 ^ ?k * 2 ^ prefix" by (simp add: mult.commute)
  have "addr div 2 ^ ?k < 2 ^ prefix"
    using assms(1) unfolding p by (simp add: less_mult_imp_div_less mult.commute)
  then have "addr div 2 ^ ?k + 1 \<le> 2 ^ prefix" by simp
  then have "(addr div 2 ^ ?k + 1) * 2 ^ ?k \<le> 2 ^ prefix * 2 ^ ?k"
    by (rule mult_le_mono1)
  then show ?thesis using na p by (simp add: mult.commute)
qed

lemma parse_ip_network_hosts:
  assumes "parse_cidr (trim input) = Some (addr, prefix)"
    and "parse_ip_network input = Inr hosts"
  shows "hosts = map format_ipv4 (network_hosts addr prefix)"
  using assms by (simp add: parse_ip_network_def Let_def split: if_splits)

lemma cidr_excludes:
  assumes "parse_cidr (trim input) = Some (addr, prefix)" and "prefix \<le> 30"
    and "parse_ip_network input = Inr hosts"
  shows "length hosts = 2 ^ (32 - prefix) - 2"
    and "format_ipv4 (network_address addr prefix) \<notin> set hosts"
    and "format_ipv4 (broadcast_address addr prefix) \<notin> set hosts"
proof -
  let ?k = "32 - prefix"
  let ?N = "network_address addr prefix"
  have b: "addr < 4294967296" "prefix \<le> 32" using parse_cidr_bound [OF assms(1)] by simp_all
  have top: "?N + 2 ^ ?k \<le> 4294967296" using b by (rule network_top)
  have hosts: "hosts = map (\<lambda>i. format_ipv4 (?N + i)) [1..<2 ^ ?k - 1]"
    using parse_ip_network_hosts [OF assms(1,3)] assms(2)
    by (simp add: network_hosts_def comp_def)
  have pos: "(0::nat) < 2 ^ ?k" by simp
  show "length hosts = 2 ^ ?k - 2" by (simp add: hosts)
  show "format_ipv4 ?N \<notin> set hosts"
  proof
    assume "format_ipv4 ?N \<in> set hosts"
    then obtain i where i: "1 \<le> i" "i < 2 ^ ?k - 1" "format_ipv4 ?N = format_ipv4 (?N + i)"
      by (auto simp: hosts)
    have "?N < 4294967296" "?N + i < 4294967296" using top i pos by linarith+
    then have "?N = ?N + i" using i(3) by (rule format_ipv4_inj)
    with i(1) show False by simp
  qed
  show "format_ipv4 (broadcast_address addr prefix) \<notin> set hosts"
  proof
    assume "format_ipv4 (broadcast_address addr prefix) \<in> set hosts"
    then obtain i where i: "1 \<le> i" "i < 2 ^ ?k - 1"
      "format_ipv4 (?N + 2 ^ ?k - 1) = format_ipv4 (?N + i)"
      by (auto simp: hosts broadcast_address_def)
    have "?N + 2 ^ ?k - 1 < 4294967296" "?N + i < 4294967296" using top i pos by linarith+
    then have "?N + 2 ^ ?k - 1 = ?N + i" using i(3) by (rule format_ipv4_inj)
    with i(2) pos show False by linarith
  qed
qed

lemma format_192_168_1:
  assumes "i < 256"
  shows "format_ipv4 (3232235776 + i) = ''192.168.1.'' @ show_decimal i"
proof -
  have d1: "(3232235776 + i) div 256 = 12625921"
    using assms by (intro div_nat_eqI) simp_all
  have m1: "(3232235776 + i) mod 256 = i"
  proof -
    have "(3232235776 + i) mod 256 = (i + 12625921 * 256) mod 256" by (simp add: add.commute)
    also have "\<dots> = i mod 256" by (rule mod_mult_self1)
    finally show ?thesis using assms by simp
  qed
  have d2: "(3232235776 + i) div 65536 = 49320"
    using d1 div_mult2_eq [of "3232235776 + i" 256 256] by simp
  have d3: "(3232235776 + i) div 16777216 = 192"
    using d2 div_mult2_eq [of "3232235776 + i" 65536 256] by simp
  have s: "show_decimal 192 = ''192''" "show_decimal 168 = ''168''"
    "show_decimal (Suc 0) = ''1''"
    by (simp_all add: show_decimal.simps digit_char_def)
  show ?thesis
    by (simp add: format_ipv4_def d1 d2 d3 m1 s)
qed

lemma parse_24:
  "parse_ip_network ''192.168.1.0/24'' = Inr (map (\<lambda>i. ''192.168.1.'' @ show_decimal i) [1..<255])"
proof -
  have t: "trim ''192.168.1.0/24'' = ''192.168.1.0/24''" by (simp add: trim_def is_space_def)
  have c: "parse_cidr ''192.168.1.0/24'' = Some (3232235776, 24)"
    by (simp add: parse_cidr_def parse_ipv4_def parse_decimal_def is_digit_def digit_value_def)
  have p: "is_private 3232235776 24"
    by (simp add: is_private_def allowed_blocks_def network_address_def)
  have h: "network_hosts 3232235776 24 = map (\<lambda>i. 3232235776 + i) [1..<255]"
    by (simp add: network_hosts_def network_address_def del: upt_rec_numeral)
  have f: "map format_ipv4 (map (\<lambda>i. 3232235776 + i) [1..<255])
      = map (\<lambda>i. ''192.168.1.'' @ show_decimal i) [1..<255]"
    unfolding map_map comp_def
  proof (rule map_cong [OF refl])
    fix x :: nat
    assume "x \<in> set [1..<255]"
    then have "x < 256" by simp
    then show "format_ipv4 (3232235776 + x) = ''192.168.1.'' @ show_decimal x"
      by (rule format_192_168_1)
  qed
  have "parse_ip_network ''192.168.1.0/24''
      = Inr (map format_ipv4 (network_hosts 3232235776 24))"
    unfolding parse_ip_network_def Let_def t
    by (simp add: c p host_count_def MAX_SAFE_HOSTS_def)
  then show ?thesis by (simp only: h f)
qed

text \<open>
  C8, as the tests have it. \<open>192.168.1.0/24\<close> yields the 254 hosts 192.168.1.1 to
  192.168.1.254, in that order. For every CIDR input of prefix length at most 30 that the
  parser accepts, the host list has two addresses less than the network, and neither the
  network address nor the broadcast address is in it. A /32 yields its one address.
\<close>

theorem cidr_hosts_exclude_network_and_broadcast:
  "parse_ip_network ''192.168.1.0/24''
     = Inr (map (\<lambda>i. ''192.168.1.'' @ show_decimal i) [1..<255])
   \<and> (\<forall>input addr prefix hosts.
         parse_cidr (trim input) = Some (addr, prefix) \<and> prefix \<le> 30
         \<and> parse_ip_network input = Inr hosts
        \<longrightarrow> length hosts = 2 ^ (32 - prefix) - 2
            \<and> format_ipv4 (network_address addr prefix) \<notin> set hosts
            \<and> format_ipv4 (broadcast_address addr prefix) \<notin> set hosts)
   \<and> (\<forall>input addr hosts.
         parse_cidr (trim input) = Some (addr, 32) \<and> parse_ip_network input = Inr hosts
        \<longrightarrow> hosts = [format_ipv4 addr])"
proof (intro conjI allI impI)
  show "parse_ip_network ''192.168.1.0/24''
     = Inr (map (\<lambda>i. ''192.168.1.'' @ show_decimal i) [1..<255])"
    by (rule parse_24)
next
  fix input addr prefix hosts
  assume h: "parse_cidr (trim input) = Some (addr, prefix) \<and> prefix \<le> 30
         \<and> parse_ip_network input = Inr hosts"
  then have a: "parse_cidr (trim input) = Some (addr, prefix)" and b: "prefix \<le> 30"
    and c: "parse_ip_network input = Inr hosts" by simp_all
  show "length hosts = 2 ^ (32 - prefix) - 2" using a b c by (rule cidr_excludes)
  show "format_ipv4 (network_address addr prefix) \<notin> set hosts"
    using a b c by (rule cidr_excludes)
  show "format_ipv4 (broadcast_address addr prefix) \<notin> set hosts"
    using a b c by (rule cidr_excludes)
next
  fix input addr hosts
  assume "parse_cidr (trim input) = Some (addr, 32) \<and> parse_ip_network input = Inr hosts"
  then have "hosts = map format_ipv4 (network_hosts addr 32)"
    using parse_ip_network_hosts by blast
  then show "hosts = [format_ipv4 addr]" by (simp add: network_hosts_def)
qed

lemma format_examples:
  "format_ipv4 (network_address 3232235776 24) = ''192.168.1.0''"
  "format_ipv4 (broadcast_address 3232235776 24) = ''192.168.1.255''"
  by (simp_all add: broadcast_address_def network_address_def format_ipv4_def
      show_decimal.simps digit_char_def)

lemma trim_24: "parse_cidr (trim ''192.168.1.0/24'') = Some (3232235776, 24)"
  by (simp add: trim_def is_space_def parse_cidr_def parse_ipv4_def parse_decimal_def
      is_digit_def digit_value_def)

text \<open>
  Witness for C8, the /24 of the spec: 254 hosts, the first 192.168.1.1 and the last 192.168.1.254,
  without 192.168.1.0 and 192.168.1.255.
\<close>

theorem cidr_hosts_exclude_network_and_broadcast_witness:
  "parse_cidr (trim ''192.168.1.0/24'') = Some (3232235776, 24)
   \<and> length (projr (parse_ip_network ''192.168.1.0/24'')) = 254
   \<and> hd (projr (parse_ip_network ''192.168.1.0/24'')) = ''192.168.1.1''
   \<and> last (projr (parse_ip_network ''192.168.1.0/24'')) = ''192.168.1.254''
   \<and> ''192.168.1.0'' \<notin> set (projr (parse_ip_network ''192.168.1.0/24''))
   \<and> ''192.168.1.255'' \<notin> set (projr (parse_ip_network ''192.168.1.0/24''))"
proof -
  let ?hosts = "map (\<lambda>i. ''192.168.1.'' @ show_decimal i) [1..<255]"
  note inst = cidr_hosts_exclude_network_and_broadcast
  have p: "parse_ip_network ''192.168.1.0/24'' = Inr ?hosts"
    using inst by (rule conjunct1)
  have h: "parse_cidr (trim ''192.168.1.0/24'') = Some (3232235776, 24) \<and> (24::nat) \<le> 30
         \<and> parse_ip_network ''192.168.1.0/24'' = Inr ?hosts"
    using trim_24 p by simp
  note ex = inst [THEN conjunct2, THEN conjunct1, rule_format, OF h]
  have "[1..<255] = 1 # [2..<255]" by (simp add: upt_conv_Cons del: upt_rec_numeral)
  then have hd: "hd ?hosts = ''192.168.1.1''"
    by (simp add: show_decimal.simps digit_char_def del: upt_rec_numeral)
  have "last ?hosts = ''192.168.1.'' @ show_decimal (last [1..<Suc 254])"
    by (subst last_map) (simp_all del: upt_Suc upt_rec_numeral)
  then have last: "last ?hosts = ''192.168.1.254''"
    by (simp add: show_decimal.simps digit_char_def del: upt_rec_numeral)
  show ?thesis
    using ex trim_24 hd last
    by (simp add: p format_examples del: upt_rec_numeral)
qed

text \<open>
  C8 as stated fails for "every CIDR input": the network address of
  \<open>192.168.1.50/32\<close>, which is also its broadcast address, is the one host of the
  list.
\<close>

theorem slash_32_yields_its_network_address:
  "parse_cidr (trim ''192.168.1.50/32'') = Some (3232235826, 32)
   \<and> format_ipv4 (network_address 3232235826 32) = ''192.168.1.50''
   \<and> format_ipv4 (broadcast_address 3232235826 32) = ''192.168.1.50''
   \<and> parse_ip_network ''192.168.1.50/32'' = Inr [''192.168.1.50'']"
proof -
  have t: "trim ''192.168.1.50/32'' = ''192.168.1.50/32''"
    by (simp add: trim_def is_space_def)
  have c: "parse_cidr (trim ''192.168.1.50/32'') = Some (3232235826, 32)"
    unfolding t
    by (simp add: parse_cidr_def parse_ipv4_def parse_decimal_def is_digit_def digit_value_def)
  have f: "format_ipv4 3232235826 = ''192.168.1.50''"
    by (simp add: format_ipv4_def show_decimal.simps digit_char_def)
  have p: "is_private 3232235826 32"
    by (simp add: is_private_def allowed_blocks_def network_address_def)
  have "parse_ip_network ''192.168.1.50/32'' = Inr [''192.168.1.50'']"
    unfolding parse_ip_network_def Let_def
    using c [unfolded t] by (simp add: t p f host_count_def MAX_SAFE_HOSTS_def network_hosts_def)
  then show ?thesis
    using c f by (simp add: network_address_def broadcast_address_def)
qed

end
